theory Spec2Isabelle
  imports Complex_Main "HOL-Library.AList"
begin

section \<open>Exceptions and the random source\<close>

text \<open>
  The Python exceptions the modelled code can raise. \<open>ListIndexError\<close> and
  \<open>ArrayIndexError\<close> are both Python's \<^verbatim>\<open>IndexError\<close>: the first is raised by
  indexing an empty list inside \<^verbatim>\<open>random.choices\<close>, the second by indexing the tile array
  outside its shape (it carries the offending index). \<open>OverflowError\<close> is raised when an
  integer too large for a double is converted to one. \<open>Impossible\<close> is
  \<^verbatim>\<open>exceptions.Impossible\<close>; \<open>OtherError\<close> stands for every other exception class.
\<close>

datatype exn =
  ValueError | ListIndexError | ArrayIndexError "int \<times> int" | OverflowError | Impossible
  | OtherError nat

text \<open>
  The module-global random generator is modelled by the sequence of its raw outcomes, in
  the order in which they are consumed; an exhausted list goes on with zeros. Every
  theorem quantifies over all such sequences, hence over all runs.
\<close>

type_synonym rng = "nat list"

definition next_raw :: "rng \<Rightarrow> nat \<times> rng" where
  "next_raw g = (case g of [] \<Rightarrow> (0, []) | k # g' \<Rightarrow> (k, g'))"

text \<open>
  \<^verbatim>\<open>random.randint(a, b)\<close> is \<^verbatim>\<open>randrange(a, b + 1)\<close>: it raises \<^verbatim>\<open>ValueError\<close> on an
  empty range and otherwise returns \<^verbatim>\<open>a + _randbelow(b - a + 1)\<close>; the raw outcome, reduced
  modulo the width of the range, is the value of \<^verbatim>\<open>_randbelow\<close>.
\<close>

definition randint :: "int \<Rightarrow> int \<Rightarrow> rng \<Rightarrow> exn + (int \<times> rng)" where
  "randint a b g =
     (if b < a then Inl ValueError
      else (let (k, g') = next_raw g in Inr (a + int (k mod nat (b - a + 1)), g')))"

text \<open>
  \<^verbatim>\<open>random.random()\<close> returns \<open>k / 2^53\<close> for a 53-bit integer \<open>k\<close>, a number in
  \<open>[0, 1)\<close>.
\<close>

definition random_unit :: "rng \<Rightarrow> real \<times> rng" where
  "random_unit g = (let (k, g') = next_raw g in (real (k mod 2 ^ 53) / 2 ^ 53, g'))"


section \<open>Room shapes (procgen.py)\<close>

text \<open>
  The three subclasses of \<^verbatim>\<open>Room\<close>. \<open>Rect\<close> holds the stored corners
  \<open>x1 y1 x2 y2\<close>; \<open>Circ\<close> holds \<open>x y radius\<close>; \<open>Ring\<close> holds
  \<open>x y radius inner_radius\<close>. The bounding box of a circle or a ring is computed by its
  constructor from centre and radius and never changed, so it is a function of the room.
\<close>

datatype room = Rect int int int int | Circ int int int | Ring int int int int

definition RectangularRoom :: "int \<Rightarrow> int \<Rightarrow> int \<Rightarrow> int \<Rightarrow> room" where
  "RectangularRoom x y width height = Rect x y (x + width) (y + height)"

definition CircularRoom :: "int \<Rightarrow> int \<Rightarrow> int \<Rightarrow> room" where
  "CircularRoom x y radius = Circ x y radius"

definition RingRoom :: "int \<Rightarrow> int \<Rightarrow> int \<Rightarrow> int option \<Rightarrow> room" where
  "RingRoom x y radius inner_radius =
     (case inner_radius of None \<Rightarrow> Ring x y radius (radius div 2)
      | Some ir \<Rightarrow> Ring x y radius ir)"

fun x1 :: "room \<Rightarrow> int" where
  "x1 (Rect a b c d) = a"
| "x1 (Circ x y r) = x - r"
| "x1 (Ring x y r ir) = x - r"

fun y1 :: "room \<Rightarrow> int" where
  "y1 (Rect a b c d) = b"
| "y1 (Circ x y r) = y - r"
| "y1 (Ring x y r ir) = y - r"

fun x2 :: "room \<Rightarrow> int" where
  "x2 (Rect a b c d) = c"
| "x2 (Circ x y r) = x + r"
| "x2 (Ring x y r ir) = x + r"

fun y2 :: "room \<Rightarrow> int" where
  "y2 (Rect a b c d) = d"
| "y2 (Circ x y r) = y + r"
| "y2 (Ring x y r ir) = y + r"

definition intersects :: "room \<Rightarrow> room \<Rightarrow> bool" where
  "intersects self other \<longleftrightarrow>
     x1 self \<le> x2 other \<and> x2 self \<ge> x1 other \<and> y1 self \<le> y2 other \<and> y2 self \<ge> y1 other"

text \<open>
  \<^verbatim>\<open>int((a + b) / 2)\<close>: true division followed by truncation towards zero (exact as long
  as the sum is below \<open>2^53\<close> in absolute value).
\<close>

definition int_half :: "int \<Rightarrow> int" where
  "int_half s = (if 0 \<le> s then s div 2 else - ((- s) div 2))"

fun center :: "room \<Rightarrow> int \<times> int" where
  "center (Rect a b c d) = (int_half (a + c), int_half (b + d))"
| "center (Circ x y r) = (x, y)"
| "center (Ring x y r ir) = (x, y)"

fun place_player_coordinate :: "room \<Rightarrow> int \<times> int" where
  "place_player_coordinate (Rect a b c d) = center (Rect a b c d)"
| "place_player_coordinate (Circ x y r) = (x, y)"
| "place_player_coordinate (Ring x y r ir) = (x, y - ir - (r - ir) div 2)"

text \<open>
  \<^verbatim>\<open>RectangularRoom.inner\<close> is a pair of slices, \<^verbatim>\<open>slice(x1 + 1, x2)\<close> and
  \<^verbatim>\<open>slice(y1 + 1, y2)\<close>, each given here by its start and stop.
\<close>

definition rect_inner :: "room \<Rightarrow> (int \<times> int) \<times> (int \<times> int)" where
  "rect_inner r = ((x1 r + 1, x2 r), (y1 r + 1, y2 r))"

text \<open>
  \<^verbatim>\<open>CircularRoom.inner\<close>: the offsets of \<^verbatim>\<open>product(range(-radius, radius + 1), repeat=2)\<close>
  whose Euclidean norm is below the radius, moved to the centre, in the order of the
  comprehension. The docstring, taken over from \<^verbatim>\<open>RectangularRoom.inner\<close>, calls the result
  a 2D array index; it is a list of tiles, which \<^verbatim>\<open>test_dungeon\<close> stores one by one.
\<close>

definition circle_inner :: "int \<Rightarrow> int \<Rightarrow> int \<Rightarrow> (int \<times> int) list" where
  "circle_inner cx cy radius =
     [(dx + cx, dy + cy). dx \<leftarrow> [- radius..radius], dy \<leftarrow> [- radius..radius],
        sqrt (real_of_int (dx ^ 2 + dy ^ 2)) < real_of_int radius]"

text \<open>
  \<^verbatim>\<open>RingRoom.inner\<close>: the tiles of the outer circle that are not in
  \<^verbatim>\<open>self.inner_circle.inner\<close>, the circle of radius \<open>inner_radius\<close> at the same centre.
\<close>

definition ring_inner :: "int \<Rightarrow> int \<Rightarrow> int \<Rightarrow> int \<Rightarrow> (int \<times> int) list" where
  "ring_inner cx cy radius inner_radius =
     [tile \<leftarrow> circle_inner cx cy radius. tile \<notin> set (circle_inner cx cy inner_radius)]"

text \<open>The \<^verbatim>\<open>inner\<close> property of the two shapes that enumerate their tiles.\<close>

fun inner :: "room \<Rightarrow> (int \<times> int) list" where
  "inner (Circ x y r) = circle_inner x y r"
| "inner (Ring x y r ir) = ring_inner x y r ir"
| "inner (Rect a b c d) = [(i, j). i \<leftarrow> [a + 1..c - 1], j \<leftarrow> [b + 1..d - 1]]"


section \<open>Tunnels (procgen.py)\<close>

text \<open>
  Modelled from the spec: \<^verbatim>\<open>tcod.los.bresenham\<close> belongs to the tcod library, not to the
  repository; the spec calls it the integer Bresenham line, both endpoints included. The
  line has \<open>max \<bar>dx\<bar> \<bar>dy\<bar> + 1\<close> points; each step moves one unit along the longer axis
  and, when the error term runs below zero, one unit along the other axis.
\<close>

fun bresenham_walk :: "int \<times> int \<Rightarrow> int \<times> int \<Rightarrow> nat \<Rightarrow> int \<Rightarrow> int \<times> int \<Rightarrow> (int \<times> int) list" where
  "bresenham_walk (stepx, stepy) (deltax, deltay) 0 e (x, y) = []"
| "bresenham_walk (stepx, stepy) (deltax, deltay) (Suc n) e (x, y) =
     (if stepx * deltax > stepy * deltay then
        (if e - stepy * deltay < 0
         then (x + stepx, y + stepy) #
              bresenham_walk (stepx, stepy) (deltax, deltay) n
                (e - stepy * deltay + stepx * deltax) (x + stepx, y + stepy)
         else (x + stepx, y) #
              bresenham_walk (stepx, stepy) (deltax, deltay) n (e - stepy * deltay) (x + stepx, y))
      else
        (if e - stepx * deltax < 0
         then (x + stepx, y + stepy) #
              bresenham_walk (stepx, stepy) (deltax, deltay) n
                (e - stepx * deltax + stepy * deltay) (x + stepx, y + stepy)
         else (x, y + stepy) #
              bresenham_walk (stepx, stepy) (deltax, deltay) n (e - stepx * deltax) (x, y + stepy)))"

definition bresenham :: "int \<times> int \<Rightarrow> int \<times> int \<Rightarrow> (int \<times> int) list" where
  "bresenham start dest =
     (let dx = fst dest - fst start; dy = snd dest - snd start
      in start # bresenham_walk (sgn dx, sgn dy) (2 * dx, 2 * dy)
                   (nat (max \<bar>dx\<bar> \<bar>dy\<bar>)) (max \<bar>dx\<bar> \<bar>dy\<bar>) start)"

text \<open>
  \<^verbatim>\<open>tunnel_between\<close>: one call of \<^verbatim>\<open>random.random()\<close> picks the corner, then the two
  lines are yielded one after the other. The generator is modelled by the list of what
  it yields.
\<close>

definition tunnel_corner :: "int \<times> int \<Rightarrow> int \<times> int \<Rightarrow> real \<Rightarrow> int \<times> int" where
  "tunnel_corner start dest u = (if u < 0.5 then (fst dest, snd start) else (fst start, snd dest))"

definition tunnel_between :: "int \<times> int \<Rightarrow> int \<times> int \<Rightarrow> rng \<Rightarrow> (int \<times> int) list \<times> rng" where
  "tunnel_between start dest g =
     (let (u, g') = random_unit g; corner = tunnel_corner start dest u
      in (bresenham start corner @ bresenham corner dest, g'))"


section \<open>Population tables (procgen.py)\<close>

text \<open>
  The entity templates of \<^verbatim>\<open>entity_factories\<close> that the tables name, and the controlled
  agent.
\<close>

datatype template =
  player | health_potion | confusion_scroll | lightning_scroll | sword | fireball_scroll
  | chain_mail | orc | troll

definition max_items_by_floor :: "(int \<times> int) list" where
  "max_items_by_floor = [(1, 1), (4, 2)]"

definition max_monsters_by_floor :: "(int \<times> int) list" where
  "max_monsters_by_floor = [(1, 2), (4, 3), (6, 5)]"

text \<open>A dict is an association list in insertion order, which is its iteration order.\<close>

definition item_chances :: "(int \<times> (template \<times> int) list) list" where
  "item_chances =
     [(0, [(health_potion, 35)]),
      (2, [(confusion_scroll, 10)]),
      (4, [(lightning_scroll, 25), (sword, 5)]),
      (6, [(fireball_scroll, 25), (chain_mail, 15)])]"

definition enemy_chances :: "(int \<times> (template \<times> int) list) list" where
  "enemy_chances =
     [(0, [(orc, 80)]),
      (3, [(troll, 15)]),
      (5, [(troll, 30)]),
      (7, [(troll, 60)])]"

fun max_value_loop :: "(int \<times> int) list \<Rightarrow> int \<Rightarrow> int \<Rightarrow> int" where
  "max_value_loop [] floor_number current_value = current_value"
| "max_value_loop ((floor_minimum, v) # rest) floor_number current_value =
     (if floor_minimum > floor_number then current_value
      else max_value_loop rest floor_number v)"

definition get_max_value_for_floor :: "(int \<times> int) list \<Rightarrow> int \<Rightarrow> int" where
  "get_max_value_for_floor max_value_by_floor floor_number =
     max_value_loop max_value_by_floor floor_number 0"

text \<open>
  The loop of \<^verbatim>\<open>get_entities_at_random\<close> that fills the dict
  \<^verbatim>\<open>entity_weighted_chances\<close>: it stops at the first key above the floor, and assigning to
  a key that is present replaces its value in place.
\<close>

fun entity_weighted_chances :: "(int \<times> ('e \<times> int) list) list \<Rightarrow> int \<Rightarrow> ('e \<times> int) list \<Rightarrow> ('e \<times> int) list" where
  "entity_weighted_chances [] floor_number acc = acc"
| "entity_weighted_chances ((key, vals) # rest) floor_number acc =
     (if key > floor_number then acc
      else entity_weighted_chances rest floor_number
             (fold (\<lambda>v m. AList.update (fst v) (snd v) m) vals acc))"

text \<open>
  Double-precision arithmetic, as far as \<^verbatim>\<open>random.choices\<close> needs it. \<open>bit_length\<close> is
  Python's \<^verbatim>\<open>int.bit_length\<close>. \<open>round_to_double n\<close> is the natural number nearest to \<open>n\<close>
  that has at most 53 significant bits, the even one of two that are equally near: the
  rounding of IEEE 754 in its default mode.
\<close>

fun bit_length :: "nat \<Rightarrow> nat" where
  "bit_length n = (if n = 0 then 0 else Suc (bit_length (n div 2)))"

declare bit_length.simps [simp del]

definition round_to_double :: "nat \<Rightarrow> nat" where
  "round_to_double n =
     (let shift = bit_length n - 53; q = n div 2 ^ shift; r = n mod 2 ^ shift
      in if 2 ^ shift < 2 * r \<or> (2 * r = 2 ^ shift \<and> odd q) then (q + 1) * 2 ^ shift
         else q * 2 ^ shift)"

text \<open>
  The conversion of a Python int to a float, as in \<^verbatim>\<open>cum_weights[-1] + 0.0\<close>: the value is
  rounded to a double, and Python raises \<^verbatim>\<open>OverflowError\<close> when the rounded magnitude
  reaches \<open>2^1024\<close> (C's \<^verbatim>\<open>DBL_MAX_EXP\<close> is 1024). The double that results is a whole
  number, and is kept as an \<open>int\<close>.
\<close>

definition DBL_MAX_EXP :: nat where
  "DBL_MAX_EXP = 1024"

definition int_to_double :: "int \<Rightarrow> exn + int" where
  "int_to_double n =
     (let m = round_to_double (nat \<bar>n\<bar>)
      in if 2 ^ DBL_MAX_EXP \<le> m then Inl OverflowError else Inr (sgn n * int m))"

text \<open>
  The double product \<^verbatim>\<open>random() * total\<close>, for an outcome \<open>u = k / 2^53\<close> of
  \<^verbatim>\<open>random.random()\<close> and a positive whole double \<open>total\<close>: the exact product
  \<open>k * total / 2^53\<close>, rounded to a double. It lies between \<open>2^-53\<close> and \<open>total\<close> when it is
  not zero, so the rounding neither underflows nor overflows.
\<close>

definition double_times :: "real \<Rightarrow> int \<Rightarrow> real" where
  "double_times u total_weight =
     real (round_to_double (nat \<lfloor>u * 2 ^ 53\<rfloor> * nat total_weight)) / 2 ^ 53"

text \<open>
  \<^verbatim>\<open>random.choices(population, weights=..., k=...)\<close> of the standard library (CPython 3.9
  and later): the cumulative weights are built, their number is compared with the
  population's, \<^verbatim>\<open>cum_weights[-1]\<close> is read (an \<^verbatim>\<open>IndexError\<close> on the empty list) and
  converted to a double (an \<^verbatim>\<open>OverflowError\<close> when it is too large), a total that is not
  positive is refused, and each of the \<open>k\<close> draws bisects the cumulative weights at the
  double \<^verbatim>\<open>random() * total\<close> between \<open>0\<close> and \<open>n - 1\<close>. The comparison of that double with
  an integer weight is exact, as Python's is.
\<close>

fun accumulate_from :: "int \<Rightarrow> int list \<Rightarrow> int list" where
  "accumulate_from s [] = []"
| "accumulate_from s (w # ws) = (s + w) # accumulate_from (s + w) ws"

definition accumulate :: "int list \<Rightarrow> int list" where
  "accumulate ws = accumulate_from 0 ws"

function bisect :: "int list \<Rightarrow> real \<Rightarrow> nat \<Rightarrow> nat \<Rightarrow> nat" where
  "bisect a x lo hi =
     (if lo < hi then
        (if x < real_of_int (a ! ((lo + hi) div 2)) then bisect a x lo ((lo + hi) div 2)
         else bisect a x ((lo + hi) div 2 + 1) hi)
      else lo)"
  by pat_completeness auto
termination
  by (relation "measure (\<lambda>(a, x, lo, hi). hi - lo)") auto

declare bisect.simps [simp del]

fun draw_choices :: "'a list \<Rightarrow> int list \<Rightarrow> int \<Rightarrow> nat \<Rightarrow> nat \<Rightarrow> rng \<Rightarrow> 'a list \<times> rng" where
  "draw_choices population cum_weights total_weight hi 0 g = ([], g)"
| "draw_choices population cum_weights total_weight hi (Suc k) g =
     (let (u, g1) = random_unit g;
          i = bisect cum_weights (double_times u total_weight) 0 hi;
          (rest, g2) = draw_choices population cum_weights total_weight hi k g1
      in (population ! i # rest, g2))"

definition choices :: "'a list \<Rightarrow> int list \<Rightarrow> int \<Rightarrow> rng \<Rightarrow> exn + ('a list \<times> rng)" where
  "choices population weights k g =
     (let n = length population; cum_weights = accumulate weights
      in if length cum_weights \<noteq> n then Inl ValueError
         else if cum_weights = [] then Inl ListIndexError
         else (case int_to_double (last cum_weights) of
                 Inl e \<Rightarrow> Inl e
               | Inr total_weight \<Rightarrow>
                   if total_weight \<le> 0 then Inl ValueError
                   else Inr (draw_choices population cum_weights total_weight (n - 1) (nat k) g)))"

definition get_entities_at_random :: "(int \<times> ('e \<times> int) list) list \<Rightarrow> int \<Rightarrow> int \<Rightarrow> rng \<Rightarrow> exn + ('e list \<times> rng)" where
  "get_entities_at_random weighted_chances_by_floor number_of_entities floor_number g =
     (let chances = entity_weighted_chances weighted_chances_by_floor floor_number []
      in choices (map fst chances) (map snd chances) number_of_entities g)"


text \<open>
  A path in which every point differs from the one before it by at most one unit in
  each axis.
\<close>

fun unit_steps :: "(int \<times> int) list \<Rightarrow> bool" where
  "unit_steps [] = True"
| "unit_steps [p] = True"
| "unit_steps (p # q # ps) \<longleftrightarrow>
     \<bar>fst q - fst p\<bar> \<le> 1 \<and> \<bar>snd q - snd p\<bar> \<le> 1 \<and> unit_steps (q # ps)"


text \<open>
  The combined mapping in the words of the spec: the entries of every row whose threshold
  does not exceed the floor, in the order of the table, collapsed so that a later entry
  for a template replaces the weight of an earlier one.
\<close>

definition qualifying_entries :: "(int \<times> ('e \<times> int) list) list \<Rightarrow> int \<Rightarrow> ('e \<times> int) list" where
  "qualifying_entries weighted_chances_by_floor floor_number =
     concat (map snd (filter (\<lambda>row. fst row \<le> floor_number) weighted_chances_by_floor))"

definition spec_combined_chances :: "(int \<times> ('e \<times> int) list) list \<Rightarrow> int \<Rightarrow> ('e \<times> int) list" where
  "spec_combined_chances weighted_chances_by_floor floor_number =
     fold (\<lambda>v m. AList.update (fst v) (snd v) m)
       (qualifying_entries weighted_chances_by_floor floor_number) []"

text \<open>The next \<open>n\<close> raw outcomes of the random source.\<close>

fun next_raws :: "nat \<Rightarrow> rng \<Rightarrow> nat list" where
  "next_raws 0 g = []"
| "next_raws (Suc n) g = fst (next_raw g) # next_raws n (snd (next_raw g))"


section \<open>The level\<close>

text \<open>
  Modelled from the spec: \<^verbatim>\<open>tile_types\<close> is not among the repository's files. The three
  tiles that \<^verbatim>\<open>procgen.py\<close> and \<^verbatim>\<open>engine.py\<close> name, with the two attributes of the spec's
  tile: a wall blocks movement and sight, a floor and a down-stair do not.
\<close>

datatype tile = tile_wall | tile_floor | tile_down_stairs

fun walkable :: "tile \<Rightarrow> bool" where
  "walkable tile_wall = False"
| "walkable tile_floor = True"
| "walkable tile_down_stairs = True"

fun transparent :: "tile \<Rightarrow> bool" where
  "transparent tile_wall = False"
| "transparent tile_floor = True"
| "transparent tile_down_stairs = True"

text \<open>
  A placed entity: the template it was copied from (which stands for its glyph, colour
  and capabilities) and its position, the \<^verbatim>\<open>x\<close> and \<^verbatim>\<open>y\<close> of \<^verbatim>\<open>entity.py\<close>.
\<close>

record entity =
  kind :: template
  ent_x :: int
  ent_y :: int

text \<open>
  The level, with the attributes that \<^verbatim>\<open>procgen.py\<close> and \<^verbatim>\<open>engine.py\<close> read and write. The
  arrays \<^verbatim>\<open>tiles\<close>, \<^verbatim>\<open>visible\<close> and \<^verbatim>\<open>explored\<close> have shape \<open>(width, height)\<close> and are
  functions of the index pair. \<open>written\<close> is not an attribute of the source: it records,
  in order, the index of every tile store, so that one can say where generation writes.
\<close>

record game_map =
  width :: int
  height :: int
  tiles :: "int \<times> int \<Rightarrow> tile"
  visible :: "int \<times> int \<Rightarrow> bool"
  explored :: "int \<times> int \<Rightarrow> bool"
  entities :: "entity list"
  downstairs_location :: "int \<times> int"
  written :: "(int \<times> int) list"

text \<open>
  Modelled from the spec: the constructor \<^verbatim>\<open>GameMap(engine, width, height, entities)\<close> is
  in \<^verbatim>\<open>game_map.py\<close>, which is not among the repository's files. A new level is all wall,
  nothing is visible or explored, and the descent point is the origin until generation
  sets it.
\<close>

definition GameMap :: "int \<Rightarrow> int \<Rightarrow> entity list \<Rightarrow> game_map" where
  "GameMap map_width map_height ents =
     \<lparr>width = map_width, height = map_height, tiles = (\<lambda>p. tile_wall),
      visible = (\<lambda>p. False), explored = (\<lambda>p. False), entities = ents,
      downstairs_location = (0, 0), written = []\<rparr>"

definition in_bounds :: "game_map \<Rightarrow> int \<times> int \<Rightarrow> bool" where
  "in_bounds d p \<longleftrightarrow> 0 \<le> fst p \<and> fst p < width d \<and> 0 \<le> snd p \<and> snd p < height d"

text \<open>
  An exception leaves the level as it is at that moment: a failing operation returns the
  exception together with the level, a successful one its result.
\<close>

definition lift :: "game_map \<Rightarrow> exn + 'a \<Rightarrow> (exn \<times> game_map) + 'a" where
  "lift d r = (case r of Inl e \<Rightarrow> Inl (e, d) | Inr v \<Rightarrow> Inr v)"

definition then_do :: "'e + 'a \<Rightarrow> ('a \<Rightarrow> 'e + 'b) \<Rightarrow> 'e + 'b" where
  "then_do r f = (case r of Inl e \<Rightarrow> Inl e | Inr v \<Rightarrow> f v)"

text \<open>
  Indexing an axis of length \<open>n\<close> of a numpy array with an integer: a negative index
  counts from the end, an index outside \<open>[-n, n)\<close> raises \<^verbatim>\<open>IndexError\<close>.
\<close>

definition array_index :: "int \<Rightarrow> int \<Rightarrow> int option" where
  "array_index n i =
     (if 0 \<le> i \<and> i < n then Some i else if - n \<le> i \<and> i < 0 then Some (i + n) else None)"

text \<open>\<^verbatim>\<open>dungeon.tiles[x, y] = t\<close>.\<close>

definition set_tile :: "game_map \<Rightarrow> int \<times> int \<Rightarrow> tile \<Rightarrow> (exn \<times> game_map) + game_map" where
  "set_tile d xy t =
     (case array_index (width d) (fst xy) of
        None \<Rightarrow> Inl (ArrayIndexError xy, d)
      | Some i \<Rightarrow>
          (case array_index (height d) (snd xy) of
             None \<Rightarrow> Inl (ArrayIndexError xy, d)
           | Some j \<Rightarrow> Inr (d\<lparr>tiles := (tiles d)((i, j) := t), written := written d @ [xy]\<rparr>)))"

text \<open>The tile that \<^verbatim>\<open>dungeon.tiles[x, y]\<close> reads, if the index is valid.\<close>

definition tile_at :: "game_map \<Rightarrow> int \<times> int \<Rightarrow> tile option" where
  "tile_at d xy =
     (case array_index (width d) (fst xy) of
        None \<Rightarrow> None
      | Some i \<Rightarrow>
          (case array_index (height d) (snd xy) of
             None \<Rightarrow> None
           | Some j \<Rightarrow> Some (tiles d (i, j))))"

text \<open>\<^verbatim>\<open>for x, y in path: dungeon.tiles[x, y] = t\<close>.\<close>

fun set_tiles :: "game_map \<Rightarrow> (int \<times> int) list \<Rightarrow> tile \<Rightarrow> (exn \<times> game_map) + game_map" where
  "set_tiles d [] t = Inr d"
| "set_tiles d (xy # rest) t = then_do (set_tile d xy t) (\<lambda>d'. set_tiles d' rest t)"

text \<open>
  A slice \<^verbatim>\<open>slice(start, stop)\<close> on an axis of length \<open>n\<close> selects the indices from the
  clamped start up to the clamped stop (\<^verbatim>\<open>slice.indices\<close>): a negative bound counts from
  the end, and a bound outside the axis is moved to its nearer end. Assigning to a pair of
  slices stores the tile at every selected index pair and never fails.
\<close>

definition slice_bound :: "int \<Rightarrow> int \<Rightarrow> int" where
  "slice_bound n i = (if i < 0 then max 0 (i + n) else min i n)"

definition slice_indices :: "int \<Rightarrow> int \<times> int \<Rightarrow> int list" where
  "slice_indices n s = [slice_bound n (fst s)..slice_bound n (snd s) - 1]"

definition set_tiles_slice :: "game_map \<Rightarrow> (int \<times> int) \<times> (int \<times> int) \<Rightarrow> tile \<Rightarrow> game_map" where
  "set_tiles_slice d sl t =
     (let cells = [(i, j). i \<leftarrow> slice_indices (width d) (fst sl), j \<leftarrow> slice_indices (height d) (snd sl)]
      in d\<lparr>tiles := (\<lambda>p. if p \<in> set cells then t else tiles d p), written := written d @ cells\<rparr>)"

text \<open>
  Modelled from the spec: \<^verbatim>\<open>Entity.place\<close> and \<^verbatim>\<open>Entity.spawn\<close> are not in the
  \<^verbatim>\<open>entity.py\<close> among the repository's files. Placing the controlled agent sets its
  position (it already belongs to the level's entities); spawning adds an independent copy
  of the template at the given position to the level's entities.
\<close>

definition place :: "int \<times> int \<Rightarrow> game_map \<Rightarrow> game_map" where
  "place xy d =
     d\<lparr>entities := map (\<lambda>e. if kind e = player then e\<lparr>ent_x := fst xy, ent_y := snd xy\<rparr> else e)
                     (entities d)\<rparr>"

definition spawn :: "template \<Rightarrow> game_map \<Rightarrow> int \<Rightarrow> int \<Rightarrow> game_map" where
  "spawn k d x y = d\<lparr>entities := entities d @ [\<lparr>kind = k, ent_x = x, ent_y = y\<rparr>]\<rparr>"


section \<open>Populating a room (procgen.py)\<close>

text \<open>
  The loop of \<^verbatim>\<open>place_entities\<close> over \<^verbatim>\<open>monsters + items\<close>: two draws for the position, then
  the entity is spawned unless an entity of the level is at that position.
\<close>

fun place_loop :: "room \<Rightarrow> template list \<Rightarrow> game_map \<Rightarrow> rng \<Rightarrow> (exn \<times> game_map) + (game_map \<times> rng)" where
  "place_loop room [] d g = Inr (d, g)"
| "place_loop room (entity # rest) d g =
     then_do (lift d (randint (x1 room + 1) (x2 room - 1) g)) (\<lambda>(x, g1).
     then_do (lift d (randint (y1 room + 1) (y2 room - 1) g1)) (\<lambda>(y, g2).
       if \<not> list_ex (\<lambda>e. ent_x e = x \<and> ent_y e = y) (entities d)
       then place_loop room rest (spawn entity d x y) g2
       else place_loop room rest d g2))"

definition place_entities :: "room \<Rightarrow> game_map \<Rightarrow> int \<Rightarrow> rng \<Rightarrow> (exn \<times> game_map) + (game_map \<times> rng)" where
  "place_entities room d floor_number g =
     then_do (lift d (randint 0 (get_max_value_for_floor max_monsters_by_floor floor_number) g))
       (\<lambda>(number_of_monsters, g1).
     then_do (lift d (randint 0 (get_max_value_for_floor max_items_by_floor floor_number) g1))
       (\<lambda>(number_of_items, g2).
     then_do (lift d (get_entities_at_random enemy_chances number_of_monsters floor_number g2))
       (\<lambda>(monsters, g3).
     then_do (lift d (get_entities_at_random item_chances number_of_items floor_number g3))
       (\<lambda>(items, g4).
     place_loop room (monsters @ items) d g4))))"


section \<open>Generating a level (procgen.py)\<close>

text \<open>
  The variables of the generation loop: the level under construction, the rooms accepted
  so far, the stair candidate, and the random source.
\<close>

record gen_state =
  dungeon :: game_map
  rooms :: "room list"
  center_of_last_room :: "int \<times> int"
  rng_state :: rng

text \<open>
  Carving the inner area. \<^verbatim>\<open>generate_dungeon\<close> assigns to the pair of slices;
  \<^verbatim>\<open>test_dungeon\<close> does so for a rectangle and stores tile by tile for the other shapes.
\<close>

definition carve_slices :: "game_map \<Rightarrow> room \<Rightarrow> (exn \<times> game_map) + game_map" where
  "carve_slices d new_room = Inr (set_tiles_slice d (rect_inner new_room) tile_floor)"

definition carve_inner :: "game_map \<Rightarrow> room \<Rightarrow> (exn \<times> game_map) + game_map" where
  "carve_inner d new_room =
     (case new_room of
        Rect a b c e \<Rightarrow> Inr (set_tiles_slice d (rect_inner new_room) tile_floor)
      | _ \<Rightarrow> set_tiles d (inner new_room) tile_floor)"

text \<open>
  The body of the loop from the overlap test on, which the two generators share word for
  word but for the carving of the inner area (\<open>carve\<close>) and the point at which the
  controlled agent is placed (\<open>player_xy\<close>: \<^verbatim>\<open>center\<close> in \<^verbatim>\<open>generate_dungeon\<close>,
  \<^verbatim>\<open>place_player_coordinate()\<close> in \<^verbatim>\<open>test_dungeon\<close>). A room that overlaps an accepted room is
  skipped (\<^verbatim>\<open>continue\<close>).
\<close>

definition add_room ::
  "(game_map \<Rightarrow> room \<Rightarrow> (exn \<times> game_map) + game_map) \<Rightarrow> (room \<Rightarrow> int \<times> int) \<Rightarrow> int \<Rightarrow>
   room \<Rightarrow> gen_state \<Rightarrow> (exn \<times> game_map) + gen_state" where
  "add_room carve player_xy current_floor new_room st =
     (if list_ex (\<lambda>other_room. intersects new_room other_room) (rooms st) then Inr st
      else
        then_do (carve (dungeon st) new_room) (\<lambda>d1.
        then_do
          (if rooms st = [] then
             Inr (place (player_xy new_room) d1, center_of_last_room st, rng_state st)
           else
             (let (path, g1) = tunnel_between (center (last (rooms st))) (center new_room) (rng_state st)
              in then_do (set_tiles d1 path tile_floor) (\<lambda>d2. Inr (d2, center new_room, g1))))
          (\<lambda>(d2, c, g1).
        then_do (place_entities new_room d2 current_floor g1) (\<lambda>(d3, g2).
        then_do (set_tile d3 c tile_down_stairs) (\<lambda>d4.
          Inr \<lparr>dungeon = d4\<lparr>downstairs_location := c\<rparr>, rooms = rooms st @ [new_room],
               center_of_last_room = c, rng_state = g2\<rparr>)))))"

text \<open>One iteration of the loop of \<^verbatim>\<open>generate_dungeon\<close>.\<close>

definition generate_dungeon_step :: "int \<Rightarrow> int \<Rightarrow> int \<Rightarrow> gen_state \<Rightarrow> (exn \<times> game_map) + gen_state" where
  "generate_dungeon_step room_min_size room_max_size current_floor st =
     then_do (lift (dungeon st) (randint room_min_size room_max_size (rng_state st)))
       (\<lambda>(room_width, g1).
     then_do (lift (dungeon st) (randint room_min_size room_max_size g1))
       (\<lambda>(room_height, g2).
     then_do (lift (dungeon st) (randint 0 (width (dungeon st) - room_width - 1) g2))
       (\<lambda>(x, g3).
     then_do (lift (dungeon st) (randint 0 (height (dungeon st) - room_height - 1) g3))
       (\<lambda>(y, g4).
     add_room carve_slices center current_floor
       (RectangularRoom x y room_width room_height) (st\<lparr>rng_state := g4\<rparr>)))))"

text \<open>
  One iteration of the loop of \<^verbatim>\<open>test_dungeon\<close>: \<^verbatim>\<open>random.random()\<close> picks the shape, the
  shape's own draws follow. The literals \<^verbatim>\<open>0.6\<close> and \<^verbatim>\<open>0.9\<close> are doubles:
  \<open>5404319552844595 / 2^53\<close> and \<open>8106479329266893 / 2^53\<close>.
\<close>

definition test_dungeon_step :: "int \<Rightarrow> int \<Rightarrow> int \<Rightarrow> gen_state \<Rightarrow> (exn \<times> game_map) + gen_state" where
  "test_dungeon_step room_min_size room_max_size current_floor st =
     (let (room_type_check, g0) = random_unit (rng_state st) in
      if room_type_check < 5404319552844595 / 2 ^ 53 then
        then_do (lift (dungeon st) (randint room_min_size room_max_size g0))
          (\<lambda>(room_width, g1).
        then_do (lift (dungeon st) (randint room_min_size room_max_size g1))
          (\<lambda>(room_height, g2).
        then_do (lift (dungeon st) (randint 0 (width (dungeon st) - room_width - 1) g2))
          (\<lambda>(x, g3).
        then_do (lift (dungeon st) (randint 0 (height (dungeon st) - room_height - 1) g3))
          (\<lambda>(y, g4).
        add_room carve_inner place_player_coordinate current_floor
          (RectangularRoom x y room_width room_height) (st\<lparr>rng_state := g4\<rparr>)))))
      else if room_type_check < 8106479329266893 / 2 ^ 53 then
        then_do (lift (dungeon st) (randint (room_min_size div 2) (room_max_size div 2) g0))
          (\<lambda>(radius, g1).
        then_do (lift (dungeon st) (randint radius (width (dungeon st) - radius) g1))
          (\<lambda>(x, g2).
        then_do (lift (dungeon st) (randint radius (height (dungeon st) - radius) g2))
          (\<lambda>(y, g3).
        add_room carve_inner place_player_coordinate current_floor
          (CircularRoom x y radius) (st\<lparr>rng_state := g3\<rparr>))))
      else
        then_do (lift (dungeon st) (randint (room_min_size div 2) (room_max_size div 2) g0))
          (\<lambda>(radius, g1).
        then_do (lift (dungeon st) (randint 1 radius g1))
          (\<lambda>(inner_radius, g2).
        then_do (lift (dungeon st) (randint radius (width (dungeon st) - radius) g2))
          (\<lambda>(x, g3).
        then_do (lift (dungeon st) (randint radius (height (dungeon st) - radius) g3))
          (\<lambda>(y, g4).
        add_room carve_inner place_player_coordinate current_floor
          (RingRoom x y radius (Some inner_radius)) (st\<lparr>rng_state := g4\<rparr>))))))"

text \<open>\<^verbatim>\<open>for r in range(max_rooms)\<close>: the body is run that many times, unless it raises.\<close>

fun room_loop :: "(gen_state \<Rightarrow> (exn \<times> game_map) + gen_state) \<Rightarrow> nat \<Rightarrow> gen_state \<Rightarrow> (exn \<times> game_map) + gen_state" where
  "room_loop body 0 st = Inr st"
| "room_loop body (Suc n) st = then_do (body st) (\<lambda>st'. room_loop body n st')"

definition initial_state :: "int \<Rightarrow> int \<Rightarrow> entity \<Rightarrow> rng \<Rightarrow> gen_state" where
  "initial_state map_width map_height the_player g =
     \<lparr>dungeon = GameMap map_width map_height [the_player], rooms = [],
      center_of_last_room = (0, 0), rng_state = g\<rparr>"

text \<open>
  The two generators, up to the end of the loop. Of the \<^verbatim>\<open>engine\<close> argument they use the
  controlled agent and \<^verbatim>\<open>engine.game_world.current_floor\<close>.
\<close>

definition generate_dungeon_rooms ::
  "int \<Rightarrow> int \<Rightarrow> int \<Rightarrow> int \<Rightarrow> int \<Rightarrow> entity \<Rightarrow> int \<Rightarrow> rng \<Rightarrow> (exn \<times> game_map) + gen_state" where
  "generate_dungeon_rooms max_rooms room_min_size room_max_size map_width map_height
     the_player current_floor g =
     room_loop (generate_dungeon_step room_min_size room_max_size current_floor) (nat max_rooms)
       (initial_state map_width map_height the_player g)"

definition test_dungeon_rooms ::
  "int \<Rightarrow> int \<Rightarrow> int \<Rightarrow> int \<Rightarrow> int \<Rightarrow> entity \<Rightarrow> int \<Rightarrow> rng \<Rightarrow> (exn \<times> game_map) + gen_state" where
  "test_dungeon_rooms max_rooms room_min_size room_max_size map_width map_height
     the_player current_floor g =
     room_loop (test_dungeon_step room_min_size room_max_size current_floor) (nat max_rooms)
       (initial_state map_width map_height the_player g)"

text \<open>\<^verbatim>\<open>return dungeon\<close>.\<close>

definition generate_dungeon ::
  "int \<Rightarrow> int \<Rightarrow> int \<Rightarrow> int \<Rightarrow> int \<Rightarrow> entity \<Rightarrow> int \<Rightarrow> rng \<Rightarrow> (exn \<times> game_map) + game_map" where
  "generate_dungeon max_rooms room_min_size room_max_size map_width map_height
     the_player current_floor g =
     then_do (generate_dungeon_rooms max_rooms room_min_size room_max_size map_width map_height
                the_player current_floor g) (\<lambda>st. Inr (dungeon st))"

definition test_dungeon ::
  "int \<Rightarrow> int \<Rightarrow> int \<Rightarrow> int \<Rightarrow> int \<Rightarrow> entity \<Rightarrow> int \<Rightarrow> rng \<Rightarrow> (exn \<times> game_map) + game_map" where
  "test_dungeon max_rooms room_min_size room_max_size map_width map_height
     the_player current_floor g =
     then_do (test_dungeon_rooms max_rooms room_min_size room_max_size map_width map_height
                the_player current_floor g) (\<lambda>st. Inr (dungeon st))"


text \<open>
  An entity stands strictly inside the bounding box of a room: between the two stored
  corners in each axis.
\<close>

definition inside_box :: "room \<Rightarrow> entity \<Rightarrow> bool" where
  "inside_box room e \<longleftrightarrow>
     x1 room < ent_x e \<and> ent_x e < x2 room \<and> y1 room < ent_y e \<and> ent_y e < y2 room"


section \<open>Invariants of the generation loop\<close>

text \<open>
  No two accepted rooms overlap; the bookkeeping of the stair candidate, relative to the
  level \<open>d0\<close> the loop started from.
\<close>

definition rooms_apart :: "room list \<Rightarrow> bool" where
  "rooms_apart rs \<longleftrightarrow>
     (\<forall>i j. i < length rs \<and> j < length rs \<and> i \<noteq> j \<longrightarrow> \<not> intersects (rs ! i) (rs ! j))"

definition stairs_invariant :: "game_map \<Rightarrow> gen_state \<Rightarrow> bool" where
  "stairs_invariant d0 st \<longleftrightarrow>
     (rooms st = [] \<longrightarrow> dungeon st = d0 \<and> center_of_last_room st = (0, 0))
   \<and> (rooms st \<noteq> [] \<longrightarrow>
         downstairs_location (dungeon st) = center_of_last_room st
       \<and> tile_at (dungeon st) (center_of_last_room st) = Some tile_down_stairs)
   \<and> (length (rooms st) = 1 \<longrightarrow> center_of_last_room st = (0, 0))
   \<and> (2 \<le> length (rooms st) \<longrightarrow> center_of_last_room st = center (last (rooms st)))"

text \<open>
  Every index stored to lies inside the map of width \<open>W\<close> and height \<open>H\<close>: for a point,
  for a level (all its stores so far), for the loop's state (the level, the centre of the
  last accepted room and the stair candidate), for a candidate room (its centre and, for
  the shapes carved tile by tile, its inner tiles). A failure is good when it leaves such
  a level behind and is not an \<^verbatim>\<open>IndexError\<close> of the tile array.
\<close>

definition point_ok :: "int \<Rightarrow> int \<Rightarrow> int \<times> int \<Rightarrow> bool" where
  "point_ok W H p \<longleftrightarrow> 0 \<le> fst p \<and> fst p < W \<and> 0 \<le> snd p \<and> snd p < H"

definition map_ok :: "int \<Rightarrow> int \<Rightarrow> game_map \<Rightarrow> bool" where
  "map_ok W H d \<longleftrightarrow> width d = W \<and> height d = H \<and> (\<forall>p \<in> set (written d). point_ok W H p)"

definition bounds_invariant :: "int \<Rightarrow> int \<Rightarrow> gen_state \<Rightarrow> bool" where
  "bounds_invariant W H st \<longleftrightarrow>
     map_ok W H (dungeon st)
   \<and> (rooms st \<noteq> [] \<longrightarrow> point_ok W H (center (last (rooms st))))
   \<and> (center_of_last_room st = (0, 0) \<or> point_ok W H (center_of_last_room st))"

definition room_fits :: "int \<Rightarrow> int \<Rightarrow> room \<Rightarrow> bool" where
  "room_fits W H r \<longleftrightarrow>
     point_ok W H (center r)
   \<and> (case r of Rect a b c e \<Rightarrow> True | _ \<Rightarrow> (\<forall>p \<in> set (inner r). point_ok W H p))"

definition good_failure :: "int \<Rightarrow> int \<Rightarrow> exn \<times> game_map \<Rightarrow> bool" where
  "good_failure W H ed \<longleftrightarrow> map_ok W H (snd ed) \<and> (\<forall>p. fst ed \<noteq> ArrayIndexError p)"

definition good_outcome :: "int \<Rightarrow> int \<Rightarrow> (exn \<times> game_map) + gen_state \<Rightarrow> bool" where
  "good_outcome W H r =
     (case r of Inr st \<Rightarrow> bounds_invariant W H st | Inl ed \<Rightarrow> good_failure W H ed)"


section \<open>The turn cycle (engine.py)\<close>

text \<open>
  Of the \<^verbatim>\<open>Engine\<close> object, the two attributes that \<^verbatim>\<open>update_fov\<close> reads and writes: the
  level and the controlled entity \<^verbatim>\<open>self.player\<close>.
\<close>

record engine =
  game_map :: game_map
  engine_player :: entity

text \<open>
  \<^verbatim>\<open>compute_fov\<close> is \<^verbatim>\<open>tcod.map.compute_fov\<close>, a library function; it is a parameter here,
  applied as the source applies it: to the transparency of every tile, the position of the
  controlled entity and the radius 8. The slice assignment \<^verbatim>\<open>visible[:] = ...\<close> overwrites
  every cell of the array, and \<^verbatim>\<open>explored |= visible\<close> is the cellwise disjunction.
\<close>

definition update_fov ::
  "((int \<times> int \<Rightarrow> bool) \<Rightarrow> int \<times> int \<Rightarrow> int \<Rightarrow> (int \<times> int \<Rightarrow> bool)) \<Rightarrow> engine \<Rightarrow> engine" where
  "update_fov compute_fov self =
     (let gm = game_map self;
          gm1 = gm\<lparr>visible := compute_fov (\<lambda>p. transparent (tiles gm p))
                                  (ent_x (engine_player self), ent_y (engine_player self)) 8\<rparr>;
          gm2 = gm1\<lparr>explored := (\<lambda>p. explored gm1 p \<or> visible gm1 p)\<rparr>
      in self\<lparr>game_map := gm2\<rparr>)"

text \<open>
  A sequence of turns: each turn changes the engine in some way (the controlled entity
  moves, the level changes) and then refreshes the field of view.
\<close>

fun turns ::
  "((int \<times> int \<Rightarrow> bool) \<Rightarrow> int \<times> int \<Rightarrow> int \<Rightarrow> (int \<times> int \<Rightarrow> bool)) \<Rightarrow> (engine \<Rightarrow> engine) list \<Rightarrow>
   engine \<Rightarrow> engine" where
  "turns compute_fov [] self = self"
| "turns compute_fov (change # rest) self =
     turns compute_fov rest (update_fov compute_fov (change self))"

text \<open>
  Modelled from the spec: \<^verbatim>\<open>game_map.actors\<close>, the attribute \<^verbatim>\<open>entity.ai\<close> and
  \<^verbatim>\<open>ai.perform\<close> are not among the repository's files. The placed entities are a list
  \<open>actors\<close>; \<open>ai entity w\<close> tells whether the entity carries an acting capability in the
  state \<open>w\<close>; \<open>perform entity w\<close> is its action, which returns the state it leaves and the
  exception it raises, if any.

  The loop of \<^verbatim>\<open>handle_enemy_turns\<close> over an iteration order of the set. The capability is
  tested when the entity's turn comes; \<^verbatim>\<open>exceptions.Impossible\<close> is caught and dropped, any
  other exception ends the loop and leaves the function. Beside the state, the result
  lists the entities whose action was invoked, in order.
\<close>

fun enemy_turns ::
  "('a \<Rightarrow> 'w \<Rightarrow> bool) \<Rightarrow> ('a \<Rightarrow> 'w \<Rightarrow> 'w \<times> exn option) \<Rightarrow> 'a list \<Rightarrow> 'w \<Rightarrow>
   ('w \<times> 'a list) \<times> exn option" where
  "enemy_turns ai perform [] w = ((w, []), None)"
| "enemy_turns ai perform (entity # rest) w =
     (if ai entity w then
        (case perform entity w of
           (w', None) \<Rightarrow>
             (case enemy_turns ai perform rest w' of
                ((w'', invoked), raised) \<Rightarrow> ((w'', entity # invoked), raised))
         | (w', Some Impossible) \<Rightarrow>
             (case enemy_turns ai perform rest w' of
                ((w'', invoked), raised) \<Rightarrow> ((w'', entity # invoked), raised))
         | (w', Some e) \<Rightarrow> ((w', [entity]), Some e))
      else enemy_turns ai perform rest w)"

text \<open>
  \<^verbatim>\<open>set(self.game_map.actors) - {self.player}\<close> is built once, before the loop; a Python set
  is iterated in an order the language does not fix, each member once.
\<close>

definition iteration_orders :: "'a list \<Rightarrow> 'a \<Rightarrow> 'a list set" where
  "iteration_orders actors the_player =
     {order. distinct order \<and> set order = set actors - {the_player}}"

definition handle_enemy_turns ::
  "('a \<Rightarrow> 'w \<Rightarrow> bool) \<Rightarrow> ('a \<Rightarrow> 'w \<Rightarrow> 'w \<times> exn option) \<Rightarrow> 'a list \<Rightarrow> 'w \<Rightarrow>
   ('w \<times> 'a list) \<times> exn option" where
  "handle_enemy_turns ai perform order w = enemy_turns ai perform order w"


section \<open>Properties of the room shapes\<close>

lemma sqrt_less_int:
  "0 \<le> n \<Longrightarrow> sqrt (real_of_int n) < real_of_int r \<longleftrightarrow> 0 < r \<and> n < r * r"
proof (cases "0 < r")
  case True
  assume n: "0 \<le> n"
  have "sqrt (real_of_int n) < real_of_int r \<longleftrightarrow> sqrt (real_of_int n) < sqrt (real_of_int (r * r))"
    using True by (simp add: real_sqrt_mult)
  also have "\<dots> \<longleftrightarrow> real_of_int n < real_of_int (r * r)"
    by (rule real_sqrt_less_iff)
  also have "\<dots> \<longleftrightarrow> n < r * r"
    by (rule of_int_less_iff)
  finally show ?thesis using True by simp
next
  case False
  assume n: "0 \<le> n"
  have "0 \<le> sqrt (real_of_int n)" using n by simp
  moreover have "real_of_int r \<le> 0" using False by simp
  ultimately show ?thesis using False by linarith
qed

lemma comprehension_product:
  "concat (map (\<lambda>x. concat (map (\<lambda>y. if P x y then [f x y] else []) ys)) xs)
     = map (\<lambda>(x, y). f x y) (filter (\<lambda>(x, y). P x y) (List.product xs ys))"
proof (induction xs)
  case Nil
  show ?case by simp
next
  case (Cons x xs)
  have inner: "concat (map (\<lambda>y. if P x y then [f x y] else []) ys)
        = map (\<lambda>(x, y). f x y) (filter (\<lambda>(x, y). P x y) (map (Pair x) ys))"
    by (induction ys) auto
  show ?case using Cons inner by simp
qed

lemma circle_inner_product:
  "circle_inner cx cy r =
     map (\<lambda>(dx, dy). (dx + cx, dy + cy))
       (filter (\<lambda>(dx, dy). sqrt (real_of_int (dx ^ 2 + dy ^ 2)) < real_of_int r)
          (List.product [- r..r] [- r..r]))"
  unfolding circle_inner_def by (rule comprehension_product)

lemma distinct_circle_inner: "distinct (circle_inner cx cy r)"
  unfolding circle_inner_product
  by (auto simp: distinct_map distinct_product intro!: inj_onI)

lemma set_circle_inner_image:
  "set (circle_inner cx cy r) =
     (\<lambda>(dx, dy). (dx + cx, dy + cy)) `
       {(dx, dy). - r \<le> dx \<and> dx \<le> r \<and> - r \<le> dy \<and> dy \<le> r \<and>
                  sqrt (real_of_int (dx ^ 2 + dy ^ 2)) < real_of_int r}"
  unfolding circle_inner_product set_map set_filter by auto

lemma square_sum_bound:
  fixes a b r :: int
  assumes "a ^ 2 + b ^ 2 < r * r" "0 < r"
  shows "\<bar>a\<bar> \<le> r"
proof -
  have "0 \<le> b ^ 2" by (rule zero_le_power2)
  with assms(1) have "a ^ 2 \<le> r ^ 2" unfolding power2_eq_square by linarith
  then have "\<bar>a\<bar> \<le> \<bar>r\<bar>" by (simp only: abs_le_square_iff)
  then show ?thesis using assms(2) by linarith
qed

lemma in_circle_inner:
  "(px, py) \<in> set (circle_inner cx cy r) \<longleftrightarrow> 0 < r \<and> (px - cx) ^ 2 + (py - cy) ^ 2 < r * r"
proof
  assume "(px, py) \<in> set (circle_inner cx cy r)"
  then obtain dx dy where d: "px = dx + cx" "py = dy + cy"
      "sqrt (real_of_int (dx ^ 2 + dy ^ 2)) < real_of_int r"
    unfolding set_circle_inner_image by auto
  have "0 \<le> dx ^ 2 + dy ^ 2" by simp
  from sqrt_less_int [OF this, of r] d(3) have "0 < r \<and> dx ^ 2 + dy ^ 2 < r * r" by simp
  with d(1,2) show "0 < r \<and> (px - cx) ^ 2 + (py - cy) ^ 2 < r * r" by simp
next
  assume a: "0 < r \<and> (px - cx) ^ 2 + (py - cy) ^ 2 < r * r"
  have "0 \<le> (px - cx) ^ 2 + (py - cy) ^ 2" by simp
  from sqrt_less_int [OF this, of r] a
  have s: "sqrt (real_of_int ((px - cx) ^ 2 + (py - cy) ^ 2)) < real_of_int r" by simp
  have bx: "\<bar>px - cx\<bar> \<le> r" using a square_sum_bound [of "px - cx" "py - cy" r] by simp
  have "(py - cy) ^ 2 + (px - cx) ^ 2 < r * r" using a by (simp add: add.commute)
  then have by': "\<bar>py - cy\<bar> \<le> r" using a square_sum_bound [of "py - cy" "px - cx" r] by simp
  have mem: "(px - cx, py - cy) \<in> {(dx, dy). - r \<le> dx \<and> dx \<le> r \<and> - r \<le> dy \<and> dy \<le> r \<and>
                  sqrt (real_of_int (dx ^ 2 + dy ^ 2)) < real_of_int r}"
  proof -
    have "- r \<le> px - cx" "px - cx \<le> r" "- r \<le> py - cy" "py - cy \<le> r"
      using bx by' by linarith+
    with s show ?thesis by simp
  qed
  have "(px, py) = (\<lambda>(dx, dy). (dx + cx, dy + cy)) (px - cx, py - cy)" by simp
  with mem show "(px, py) \<in> set (circle_inner cx cy r)"
    unfolding set_circle_inner_image by (rule image_eqI [rotated])
qed

text \<open>
  Claim C9. For every centre, radius and inner radius, the tiles that \<^verbatim>\<open>RingRoom.inner\<close>
  enumerates are, as a set, the tiles of the outer circle's \<^verbatim>\<open>inner\<close> minus the tiles of
  the inner circle's \<^verbatim>\<open>inner\<close>; a circle's \<^verbatim>\<open>inner\<close> holds exactly the integer offsets from
  the centre whose Euclidean norm is strictly below the radius; and neither enumeration
  lists a tile twice.
\<close>

theorem ring_inner_set_difference:
  "set (inner (RingRoom cx cy radius (Some inner_radius)))
     = set (inner (CircularRoom cx cy radius)) - set (inner (CircularRoom cx cy inner_radius))
   \<and> set (inner (CircularRoom cx cy radius))
     = {(dx + cx, dy + cy) | dx dy. sqrt (real_of_int (dx ^ 2 + dy ^ 2)) < real_of_int radius}
   \<and> distinct (inner (CircularRoom cx cy radius))
   \<and> distinct (inner (RingRoom cx cy radius (Some inner_radius)))"
proof (intro conjI)
  show "set (inner (RingRoom cx cy radius (Some inner_radius)))
     = set (inner (CircularRoom cx cy radius)) - set (inner (CircularRoom cx cy inner_radius))"
    by (auto simp: RingRoom_def CircularRoom_def ring_inner_def)
  show "set (inner (CircularRoom cx cy radius))
     = {(dx + cx, dy + cy) | dx dy. sqrt (real_of_int (dx ^ 2 + dy ^ 2)) < real_of_int radius}"
  proof (rule set_eqI)
    fix p :: "int \<times> int"
    obtain px py where p: "p = (px, py)" by (cases p)
    have nn: "0 \<le> (px - cx) ^ 2 + (py - cy) ^ 2" by simp
    have "p \<in> {(dx + cx, dy + cy) | dx dy. sqrt (real_of_int (dx ^ 2 + dy ^ 2)) < real_of_int radius}
        \<longleftrightarrow> sqrt (real_of_int ((px - cx) ^ 2 + (py - cy) ^ 2)) < real_of_int radius"
    proof
      assume "p \<in> {(dx + cx, dy + cy) | dx dy. sqrt (real_of_int (dx ^ 2 + dy ^ 2)) < real_of_int radius}"
      then obtain dx dy where "px = dx + cx" "py = dy + cy"
        "sqrt (real_of_int (dx ^ 2 + dy ^ 2)) < real_of_int radius"
        using p by auto
      then show "sqrt (real_of_int ((px - cx) ^ 2 + (py - cy) ^ 2)) < real_of_int radius" by simp
    next
      assume "sqrt (real_of_int ((px - cx) ^ 2 + (py - cy) ^ 2)) < real_of_int radius"
      moreover have "p = ((px - cx) + cx, (py - cy) + cy)" using p by simp
      ultimately show "p \<in> {(dx + cx, dy + cy) | dx dy. sqrt (real_of_int (dx ^ 2 + dy ^ 2)) < real_of_int radius}"
        by blast
    qed
    also have "\<dots> \<longleftrightarrow> 0 < radius \<and> (px - cx) ^ 2 + (py - cy) ^ 2 < radius * radius"
      by (rule sqrt_less_int [OF nn])
    also have "\<dots> \<longleftrightarrow> p \<in> set (inner (CircularRoom cx cy radius))"
      by (simp add: p CircularRoom_def in_circle_inner)
    finally show "p \<in> set (inner (CircularRoom cx cy radius)) \<longleftrightarrow>
       p \<in> {(dx + cx, dy + cy) | dx dy. sqrt (real_of_int (dx ^ 2 + dy ^ 2)) < real_of_int radius}"
      by simp
  qed
  show "distinct (inner (CircularRoom cx cy radius))"
    by (simp add: CircularRoom_def distinct_circle_inner)
  show "distinct (inner (RingRoom cx cy radius (Some inner_radius)))"
    by (simp add: RingRoom_def ring_inner_def distinct_circle_inner)
qed

text \<open>
  The instance of the spec: radius 5 and inner radius 2 at the origin. A point at distance
  exactly 2 belongs to the ring, a point at distance exactly 5 does not.
\<close>

theorem ring_inner_radius_5_2:
  "set (inner (RingRoom 0 0 5 (Some 2)))
     = set (inner (CircularRoom 0 0 5)) - set (inner (CircularRoom 0 0 2))
   \<and> (2, 0) \<in> set (inner (RingRoom 0 0 5 (Some 2)))
   \<and> (1, 1) \<notin> set (inner (RingRoom 0 0 5 (Some 2)))
   \<and> (4, 2) \<in> set (inner (RingRoom 0 0 5 (Some 2)))
   \<and> (3, 4) \<notin> set (inner (RingRoom 0 0 5 (Some 2)))"
proof -
  have d: "set (inner (RingRoom 0 0 5 (Some 2)))
     = set (inner (CircularRoom 0 0 5)) - set (inner (CircularRoom 0 0 2))"
    using ring_inner_set_difference [of 0 0 5 2] by blast
  have m: "(2, 0) \<in> set (inner (RingRoom 0 0 5 (Some 2)))"
    "(1, 1) \<notin> set (inner (RingRoom 0 0 5 (Some 2)))"
    "(4, 2) \<in> set (inner (RingRoom 0 0 5 (Some 2)))"
    "(3, 4) \<notin> set (inner (RingRoom 0 0 5 (Some 2)))"
    unfolding d by (simp_all add: CircularRoom_def in_circle_inner)
  show ?thesis using d m by simp
qed


section \<open>Properties of the tunnels\<close>

lemma unit_steps_nth:
  "unit_steps ps \<longleftrightarrow> (\<forall>i. Suc i < length ps \<longrightarrow>
      \<bar>fst (ps ! Suc i) - fst (ps ! i)\<bar> \<le> 1 \<and> \<bar>snd (ps ! Suc i) - snd (ps ! i)\<bar> \<le> 1)"
proof (induction ps rule: unit_steps.induct)
  case 1
  show ?case by simp
next
  case (2 p)
  show ?case by simp
next
  case (3 p q ps)
  show ?case
  proof
    assume a: "unit_steps (p # q # ps)"
    show "\<forall>i. Suc i < length (p # q # ps) \<longrightarrow>
      \<bar>fst ((p # q # ps) ! Suc i) - fst ((p # q # ps) ! i)\<bar> \<le> 1 \<and>
      \<bar>snd ((p # q # ps) ! Suc i) - snd ((p # q # ps) ! i)\<bar> \<le> 1"
    proof (intro allI impI)
      fix i assume i: "Suc i < length (p # q # ps)"
      show "\<bar>fst ((p # q # ps) ! Suc i) - fst ((p # q # ps) ! i)\<bar> \<le> 1 \<and>
            \<bar>snd ((p # q # ps) ! Suc i) - snd ((p # q # ps) ! i)\<bar> \<le> 1"
      proof (cases i)
        case 0
        then show ?thesis using a by simp
      next
        case (Suc j)
        then show ?thesis using a i 3 by simp
      qed
    qed
  next
    assume a: "\<forall>i. Suc i < length (p # q # ps) \<longrightarrow>
      \<bar>fst ((p # q # ps) ! Suc i) - fst ((p # q # ps) ! i)\<bar> \<le> 1 \<and>
      \<bar>snd ((p # q # ps) ! Suc i) - snd ((p # q # ps) ! i)\<bar> \<le> 1"
    have h: "\<bar>fst q - fst p\<bar> \<le> 1 \<and> \<bar>snd q - snd p\<bar> \<le> 1" using a [rule_format, of 0] by simp
    have "\<forall>i. Suc i < length (q # ps) \<longrightarrow>
      \<bar>fst ((q # ps) ! Suc i) - fst ((q # ps) ! i)\<bar> \<le> 1 \<and>
      \<bar>snd ((q # ps) ! Suc i) - snd ((q # ps) ! i)\<bar> \<le> 1"
    proof (intro allI impI)
      fix i assume "Suc i < length (q # ps)"
      then show "\<bar>fst ((q # ps) ! Suc i) - fst ((q # ps) ! i)\<bar> \<le> 1 \<and>
      \<bar>snd ((q # ps) ! Suc i) - snd ((q # ps) ! i)\<bar> \<le> 1"
        using a [rule_format, of "Suc i"] by simp
    qed
    then have "unit_steps (q # ps)" using 3 by simp
    with h show "unit_steps (p # q # ps)" by simp
  qed
qed

lemma unit_steps_walk:
  "\<bar>sx\<bar> \<le> 1 \<Longrightarrow> \<bar>sy\<bar> \<le> 1 \<Longrightarrow> unit_steps ((x, y) # bresenham_walk (sx, sy) (dx, dy) n e (x, y))"
  by (induction n arbitrary: e x y) auto

lemma unit_steps_bresenham: "unit_steps (bresenham start dest)"
proof -
  obtain x y where s: "start = (x, y)" by (cases start)
  show ?thesis
    unfolding bresenham_def Let_def s
    by (rule unit_steps_walk) (auto simp: sgn_if)
qed

lemma unit_steps_append:
  "unit_steps ps \<Longrightarrow> unit_steps qs \<Longrightarrow> ps \<noteq> [] \<Longrightarrow> qs \<noteq> [] \<Longrightarrow>
     \<bar>fst (hd qs) - fst (last ps)\<bar> \<le> 1 \<Longrightarrow> \<bar>snd (hd qs) - snd (last ps)\<bar> \<le> 1 \<Longrightarrow>
     unit_steps (ps @ qs)"
proof (induction ps rule: unit_steps.induct)
  case 1
  then show ?case by simp
next
  case (2 p)
  then show ?case by (cases qs) auto
next
  case (3 p q ps)
  then show ?case by simp
qed

lemma hd_bresenham: "hd (bresenham start dest) = start"
  by (simp add: bresenham_def Let_def)

lemma bresenham_nonempty: "bresenham start dest \<noteq> []"
  by (simp add: bresenham_def Let_def)

lemma last_walk_horizontal:
  "0 < sx * dx \<Longrightarrow> 0 \<le> e \<Longrightarrow>
     last ((x, y) # bresenham_walk (sx, 0) (dx, 0) n e (x, y)) = (x + int n * sx, y)"
  by (induction n arbitrary: x) (auto simp: algebra_simps)

lemma last_walk_vertical:
  "0 \<le> sy * dy \<Longrightarrow> 0 \<le> e \<Longrightarrow>
     last ((x, y) # bresenham_walk (0, sy) (0, dy) n e (x, y)) = (x, y + int n * sy)"
  by (induction n arbitrary: y) (auto simp: algebra_simps)

lemma last_bresenham_horizontal: "last (bresenham (a, b) (c, b)) = (c, b)"
proof (cases "c = a")
  case True
  then show ?thesis by (simp add: bresenham_def)
next
  case False
  then have pos: "0 < sgn (c - a) * (2 * (c - a))" by (auto simp: sgn_if)
  have "last ((a, b) # bresenham_walk (sgn (c - a), 0) (2 * (c - a), 0) (nat \<bar>c - a\<bar>) \<bar>c - a\<bar> (a, b))
      = (a + int (nat \<bar>c - a\<bar>) * sgn (c - a), b)"
    by (rule last_walk_horizontal [OF pos]) simp
  moreover have "a + int (nat \<bar>c - a\<bar>) * sgn (c - a) = c" by (auto simp: sgn_if)
  ultimately show ?thesis by (simp add: bresenham_def Let_def)
qed

lemma last_bresenham_vertical: "last (bresenham (a, b) (a, d)) = (a, d)"
proof -
  have "last ((a, b) # bresenham_walk (0, sgn (d - b)) (0, 2 * (d - b)) (nat \<bar>d - b\<bar>) \<bar>d - b\<bar> (a, b))
      = (a, b + int (nat \<bar>d - b\<bar>) * sgn (d - b))"
    by (rule last_walk_vertical) (auto simp: sgn_if)
  moreover have "b + int (nat \<bar>d - b\<bar>) * sgn (d - b) = d" by (auto simp: sgn_if)
  ultimately show ?thesis by (simp add: bresenham_def Let_def)
qed

lemma coin_count: "card {k. k < 2 ^ 53 \<and> fst (random_unit (k # g)) < 1 / 2} = 2 ^ 52"
proof -
  have "{k. k < 2 ^ 53 \<and> fst (random_unit (k # g)) < 1 / 2} = {..<(2 ^ 52 :: nat)}"
    by (auto simp: random_unit_def next_raw_def)
  then show ?thesis by simp
qed

lemma coin_count_compl: "card {k. k < 2 ^ 53 \<and> \<not> fst (random_unit (k # g)) < 1 / 2} = 2 ^ 52"
proof -
  have "{k. k < 2 ^ 53 \<and> \<not> fst (random_unit (k # g)) < 1 / 2} = {(2 ^ 52 :: nat)..<2 ^ 53}"
    by (auto simp: random_unit_def next_raw_def)
  then show ?thesis by simp
qed

lemma last_first_segment:
  "last (bresenham start (tunnel_corner start dest u)) = tunnel_corner start dest u"
proof -
  obtain a b where s: "start = (a, b)" by (cases start)
  show ?thesis
    by (simp add: s tunnel_corner_def last_bresenham_horizontal last_bresenham_vertical)
qed

lemma last_second_segment:
  "last (bresenham (tunnel_corner start dest u) dest) = dest"
proof -
  obtain c d where e: "dest = (c, d)" by (cases dest)
  show ?thesis
    by (simp add: e tunnel_corner_def last_bresenham_horizontal last_bresenham_vertical)
qed

text \<open>
  Claim C8. For every pair of endpoints and every state of the random source,
  \<^verbatim>\<open>tunnel_between\<close> takes the corner \<open>(end.x, start.y)\<close> when \<^verbatim>\<open>random.random()\<close> is
  below one half and \<open>(start.x, end.y)\<close> otherwise; of the \<open>2^53\<close> equally likely raw
  outcomes of \<^verbatim>\<open>random.random()\<close>, \<open>2^52\<close> give the first corner and \<open>2^52\<close> the second.
  The path is the Bresenham line from the start to the corner followed by the line from
  the corner to the end, so the corner is listed twice; its first point is the start, its
  last point is the end, and consecutive points differ by at most one unit in each axis.
\<close>

theorem tunnel_between_path:
  "(let corner = tunnel_corner start dest (fst (random_unit g));
        path = fst (tunnel_between start dest g)
    in corner = (if fst (random_unit g) < 1 / 2 then (fst dest, snd start) else (fst start, snd dest))
       \<and> path = bresenham start corner @ bresenham corner dest
       \<and> last (bresenham start corner) = corner
       \<and> hd (bresenham corner dest) = corner
       \<and> hd path = start
       \<and> last path = dest
       \<and> (\<forall>i. Suc i < length path \<longrightarrow>
             \<bar>fst (path ! Suc i) - fst (path ! i)\<bar> \<le> 1 \<and> \<bar>snd (path ! Suc i) - snd (path ! i)\<bar> \<le> 1))
   \<and> card {k. k < 2 ^ 53 \<and> fst (random_unit (k # g)) < 1 / 2} = 2 ^ 52
   \<and> card {k. k < 2 ^ 53 \<and> \<not> fst (random_unit (k # g)) < 1 / 2} = 2 ^ 52"
proof -
  define corner where "corner = tunnel_corner start dest (fst (random_unit g))"
  define path where "path = fst (tunnel_between start dest g)"
  have c: "corner = (if fst (random_unit g) < 1 / 2 then (fst dest, snd start) else (fst start, snd dest))"
    by (simp add: corner_def tunnel_corner_def)
  have p: "path = bresenham start corner @ bresenham corner dest"
    by (simp add: path_def corner_def tunnel_between_def Let_def split: prod.splits)
  have l1: "last (bresenham start corner) = corner"
    unfolding corner_def by (rule last_first_segment)
  have h2: "hd (bresenham corner dest) = corner" by (rule hd_bresenham)
  have h: "hd path = start" by (simp add: p bresenham_nonempty hd_bresenham)
  have l: "last path = dest"
    unfolding p corner_def by (simp add: bresenham_nonempty last_second_segment)
  have "unit_steps path"
    unfolding p
    by (rule unit_steps_append) (simp_all add: unit_steps_bresenham bresenham_nonempty l1 h2)
  then have u: "\<forall>i. Suc i < length path \<longrightarrow>
             \<bar>fst (path ! Suc i) - fst (path ! i)\<bar> \<le> 1 \<and> \<bar>snd (path ! Suc i) - snd (path ! i)\<bar> \<le> 1"
    by (simp only: unit_steps_nth)
  show ?thesis
    unfolding Let_def corner_def [symmetric] path_def [symmetric]
    using c p l1 h2 h l u coin_count [of g] coin_count_compl [of g] by blast
qed

text \<open>
  The endpoints \<open>(0, 0)\<close> and \<open>(3, 4)\<close> of the spec, with each of the two corners.
\<close>

theorem tunnel_between_0_0_3_4:
  "fst (tunnel_between (0, 0) (3, 4) [0])
     = [(0, 0), (1, 0), (2, 0), (3, 0), (3, 0), (3, 1), (3, 2), (3, 3), (3, 4)]
   \<and> fst (tunnel_between (0, 0) (3, 4) [2 ^ 52])
     = [(0, 0), (0, 1), (0, 2), (0, 3), (0, 4), (0, 4), (1, 4), (2, 4), (3, 4)]
   \<and> hd (fst (tunnel_between (0, 0) (3, 4) [0])) = (0, 0)
   \<and> last (fst (tunnel_between (0, 0) (3, 4) [0])) = (3, 4)
   \<and> hd (fst (tunnel_between (0, 0) (3, 4) [2 ^ 52])) = (0, 0)
   \<and> last (fst (tunnel_between (0, 0) (3, 4) [2 ^ 52])) = (3, 4)"
proof -
  have s1: "bresenham (0, 0) (3, 0) = [(0, 0), (1, 0), (2, 0), (3, 0)]"
    by (simp add: bresenham_def eval_nat_numeral)
  have s2: "bresenham (3, 0) (3, 4) = [(3, 0), (3, 1), (3, 2), (3, 3), (3, 4)]"
    by (simp add: bresenham_def eval_nat_numeral)
  have s3: "bresenham (0, 0) (0, 4) = [(0, 0), (0, 1), (0, 2), (0, 3), (0, 4)]"
    by (simp add: bresenham_def eval_nat_numeral)
  have s4: "bresenham (0, 4) (3, 4) = [(0, 4), (1, 4), (2, 4), (3, 4)]"
    by (simp add: bresenham_def eval_nat_numeral)
  have a: "fst (tunnel_between (0, 0) (3, 4) [0])
     = [(0, 0), (1, 0), (2, 0), (3, 0), (3, 0), (3, 1), (3, 2), (3, 3), (3, 4)]"
    by (simp add: tunnel_between_def tunnel_corner_def random_unit_def next_raw_def Let_def s1 s2)
  have b: "fst (tunnel_between (0, 0) (3, 4) [2 ^ 52])
     = [(0, 0), (0, 1), (0, 2), (0, 3), (0, 4), (0, 4), (1, 4), (2, 4), (3, 4)]"
    by (simp add: tunnel_between_def tunnel_corner_def random_unit_def next_raw_def Let_def s3 s4)
  have h: "hd (fst (tunnel_between (0, 0) (3, 4) [0])) = (0, 0)"
    "last (fst (tunnel_between (0, 0) (3, 4) [0])) = (3, 4)"
    using tunnel_between_path [of "(0, 0)" "(3, 4)" "[0]"] unfolding Let_def by blast+
  have h': "hd (fst (tunnel_between (0, 0) (3, 4) [2 ^ 52])) = (0, 0)"
    "last (fst (tunnel_between (0, 0) (3, 4) [2 ^ 52])) = (3, 4)"
    using tunnel_between_path [of "(0, 0)" "(3, 4)" "[2 ^ 52]"] unfolding Let_def by blast+
  show ?thesis
    by (intro conjI a b h h')
qed


section \<open>Properties of the population tables\<close>

lemma entity_weighted_chances_takeWhile:
  "entity_weighted_chances t fl acc =
     fold (\<lambda>v m. AList.update (fst v) (snd v) m)
       (concat (map snd (takeWhile (\<lambda>row. fst row \<le> fl) t))) acc"
proof (induction t arbitrary: acc)
  case Nil
  show ?case by simp
next
  case (Cons row t)
  obtain key vals where r: "row = (key, vals)" by (cases row)
  show ?case using Cons by (simp add: r)
qed

lemma sorted_filter_takeWhile:
  "sorted (map fst t) \<Longrightarrow>
     filter (\<lambda>row. fst row \<le> (fl :: int)) t = takeWhile (\<lambda>row. fst row \<le> fl) t"
proof (induction t)
  case Nil
  show ?case by simp
next
  case (Cons row t)
  show ?case
  proof (cases "fst row \<le> fl")
    case True
    then show ?thesis using Cons by simp
  next
    case False
    have "\<forall>r \<in> set t. \<not> fst r \<le> fl" using Cons.prems False by auto
    then have "filter (\<lambda>row. fst row \<le> fl) t = []" by (simp add: filter_empty_conv)
    then show ?thesis using False by simp
  qed
qed

lemma map_of_fold_update:
  "map_of (fold (\<lambda>v m. AList.update (fst v) (snd v) m) xs acc) e =
     (case map_of (rev xs) e of Some w \<Rightarrow> Some w | None \<Rightarrow> map_of acc e)"
proof (induction xs arbitrary: acc)
  case Nil
  show ?case by simp
next
  case (Cons x xs)
  show ?case
    by (simp add: Cons update_conv' map_add_def split: option.splits)
qed

lemma distinct_fold_update:
  "distinct (map fst acc) \<Longrightarrow>
     distinct (map fst (fold (\<lambda>v m. AList.update (fst v) (snd v) m) xs acc))"
  by (induction xs arbitrary: acc) (simp_all add: distinct_update)

lemma fst_set_fold_update:
  "fst ` set (fold (\<lambda>v m. AList.update (fst v) (snd v) m) xs acc) = fst ` set xs \<union> fst ` set acc"
proof (induction xs arbitrary: acc)
  case Nil
  show ?case by simp
next
  case (Cons x xs)
  have "fst ` set (AList.update (fst x) (snd x) acc) = insert (fst x) (fst ` set acc)"
    using dom_update [of "fst x" "snd x" acc] by (simp add: dom_map_of_conv_image_fst)
  then show ?case using Cons by auto
qed

text \<open>
  Claim C4, amended. For every weighted table whose thresholds are in ascending order of
  iteration, and every floor, the dict that \<^verbatim>\<open>get_entities_at_random\<close> builds is the combined
  mapping of the spec: it holds one entry for each template of a row whose threshold does
  not exceed the floor, with the weight of the last such entry for that template, and the
  draw is \<^verbatim>\<open>random.choices\<close> on the keys with the values as weights.
\<close>

theorem combined_chances_sorted_table:
  assumes "sorted (map fst weighted_chances_by_floor)"
  shows "entity_weighted_chances weighted_chances_by_floor floor_number []
           = spec_combined_chances weighted_chances_by_floor floor_number
         \<and> (\<forall>e. map_of (entity_weighted_chances weighted_chances_by_floor floor_number []) e
                = map_of (rev (qualifying_entries weighted_chances_by_floor floor_number)) e)
         \<and> distinct (map fst (entity_weighted_chances weighted_chances_by_floor floor_number []))
         \<and> get_entities_at_random weighted_chances_by_floor number_of_entities floor_number g
             = choices (map fst (spec_combined_chances weighted_chances_by_floor floor_number))
                 (map snd (spec_combined_chances weighted_chances_by_floor floor_number))
                 number_of_entities g"
proof -
  have eq: "entity_weighted_chances weighted_chances_by_floor floor_number []
           = spec_combined_chances weighted_chances_by_floor floor_number"
    unfolding spec_combined_chances_def qualifying_entries_def entity_weighted_chances_takeWhile
    by (simp only: sorted_filter_takeWhile [OF assms])
  have look: "\<forall>e. map_of (spec_combined_chances weighted_chances_by_floor floor_number) e
                = map_of (rev (qualifying_entries weighted_chances_by_floor floor_number)) e"
    unfolding spec_combined_chances_def
    by (simp add: map_of_fold_update split: option.splits)
  have dist: "distinct (map fst (spec_combined_chances weighted_chances_by_floor floor_number))"
    unfolding spec_combined_chances_def by (rule distinct_fold_update) simp
  show ?thesis
    using look dist by (simp add: eq get_entities_at_random_def Let_def)
qed

text \<open>
  The repository's \<^verbatim>\<open>enemy_chances\<close> on floor 5: the troll's weight 30 has replaced 15.
\<close>

theorem combined_chances_enemy_floor_5:
  "sorted (map fst enemy_chances)
   \<and> entity_weighted_chances enemy_chances 5 [] = [(orc, 80), (troll, 30)]
   \<and> spec_combined_chances enemy_chances 5 = [(orc, 80), (troll, 30)]
   \<and> qualifying_entries enemy_chances 5 = [(orc, 80), (troll, 15), (troll, 30)]"
proof -
  have s: "sorted (map fst enemy_chances)" by (simp add: enemy_chances_def)
  have q: "qualifying_entries enemy_chances 5 = [(orc, 80), (troll, 15), (troll, 30)]"
    by (simp add: qualifying_entries_def enemy_chances_def)
  have c: "spec_combined_chances enemy_chances 5 = [(orc, 80), (troll, 30)]"
    by (simp add: spec_combined_chances_def q)
  show ?thesis
    using combined_chances_sorted_table [OF s, of 5] s q c by simp
qed

text \<open>
  Claim C4 as stated fails on a table that is not in ascending order: the loop stops at the
  first threshold above the floor and never reaches the row with threshold 0.
\<close>

theorem combined_chances_unsorted_table:
  "map_of (entity_weighted_chances [(5, [(troll, 15)]), (0, [(orc, 80)])] 3 []) orc = None
   \<and> map_of (rev (qualifying_entries [(5, [(troll, 15)]), (0, [(orc, 80)])] 3)) orc = Some 80
   \<and> entity_weighted_chances [(5, [(troll, 15)]), (0, [(orc, 80)])] 3 []
       \<noteq> spec_combined_chances [(5, [(troll, 15)]), (0, [(orc, 80)])] 3"
  by (simp add: qualifying_entries_def spec_combined_chances_def)

lemma length_accumulate_from: "length (accumulate_from s ws) = length ws"
  by (induction ws arbitrary: s) simp_all

lemma last_accumulate_from: "ws \<noteq> [] \<Longrightarrow> last (accumulate_from s ws) = s + sum_list ws"
proof (induction ws arbitrary: s)
  case Nil
  then show ?case by simp
next
  case (Cons w ws)
  show ?case
  proof (cases ws)
    case Nil
    then show ?thesis by simp
  next
    case (Cons v vs)
    then have "accumulate_from (s + w) ws \<noteq> []" by simp
    moreover have "last (accumulate_from (s + w) ws) = (s + w) + sum_list ws"
      using Cons.IH [of "s + w"] Cons by simp
    ultimately show ?thesis by simp
  qed
qed

lemma bisect_bounds: "lo \<le> hi \<Longrightarrow> lo \<le> bisect a x lo hi \<and> bisect a x lo hi \<le> hi"
proof (induction a x lo hi rule: bisect.induct)
  case (1 a x lo hi)
  show ?case
  proof (cases "lo < hi")
    case False
    then show ?thesis using "1.prems" by (subst (1 2) bisect.simps) simp
  next
    case True
    have mid: "lo \<le> (lo + hi) div 2" "(lo + hi) div 2 < hi" using True by linarith+
    show ?thesis
    proof (cases "x < real_of_int (a ! ((lo + hi) div 2))")
      case l: True
      have "lo \<le> bisect a x lo ((lo + hi) div 2) \<and> bisect a x lo ((lo + hi) div 2) \<le> (lo + hi) div 2"
        using "1.IH"(1) [OF True l] mid by simp
      then have "lo \<le> bisect a x lo ((lo + hi) div 2) \<and> bisect a x lo ((lo + hi) div 2) \<le> hi"
        using mid by linarith
      then show ?thesis using True l by (subst (1 2) bisect.simps) simp
    next
      case r: False
      have "(lo + hi) div 2 + 1 \<le> bisect a x ((lo + hi) div 2 + 1) hi
          \<and> bisect a x ((lo + hi) div 2 + 1) hi \<le> hi"
        using "1.IH"(2) [OF True r] mid by simp
      then have "lo \<le> bisect a x ((lo + hi) div 2 + 1) hi
          \<and> bisect a x ((lo + hi) div 2 + 1) hi \<le> hi"
        using mid by linarith
      then show ?thesis using True r by (subst (1 2) bisect.simps) simp
    qed
  qed
qed

lemma length_next_raws: "length (next_raws n g) = n"
  by (induction n arbitrary: g) simp_all

lemma bit_length_0: "bit_length 0 = 0"
  by (subst bit_length.simps) simp

lemma bit_length_pos: "0 < n \<Longrightarrow> bit_length n = Suc (bit_length (n div 2))"
  by (subst bit_length.simps) simp

lemma bit_length_bounds:
  "0 < n \<Longrightarrow> 2 ^ (bit_length n - 1) \<le> n \<and> n < 2 ^ bit_length n"
proof (induction n rule: bit_length.induct)
  case (1 n)
  show ?case
  proof (cases "n div 2 = 0")
    case True
    then have "n = 1" using "1.prems" by linarith
    then show ?thesis by (simp add: bit_length_pos bit_length_0)
  next
    case False
    then have h: "0 < n div 2" by simp
    have n0: "n \<noteq> 0" using "1.prems" by simp
    from "1.IH" [OF n0 h]
    have lo: "2 ^ (bit_length (n div 2) - 1) \<le> n div 2" and hi: "n div 2 < 2 ^ bit_length (n div 2)"
      by simp_all
    have bp: "0 < bit_length (n div 2)" using h by (simp add: bit_length_pos)
    have "(2::nat) ^ bit_length (n div 2) = 2 * 2 ^ (bit_length (n div 2) - 1)"
      using bp by (cases "bit_length (n div 2)") simp_all
    then have "(2::nat) ^ bit_length (n div 2) \<le> 2 * (n div 2)" using lo by simp
    then have a: "2 ^ bit_length (n div 2) \<le> n" by linarith
    have b: "n < 2 * 2 ^ bit_length (n div 2)" using hi by linarith
    show ?thesis using a b "1.prems" by (simp add: bit_length_pos)
  qed
qed

lemma bit_length_small: "n < 2 ^ 53 \<Longrightarrow> bit_length n \<le> 53"
proof (cases "n = 0")
  case True
  then show ?thesis by (simp add: bit_length_0)
next
  case False
  assume "n < 2 ^ 53"
  moreover have "2 ^ (bit_length n - 1) \<le> n" using bit_length_bounds [of n] False by simp
  ultimately have "(2::nat) ^ (bit_length n - 1) < 2 ^ 53" by linarith
  then have "bit_length n - 1 < 53" by (simp only: power_strict_increasing_iff one_less_numeral_iff semiring_norm)
  then show ?thesis by linarith
qed

lemma round_to_double_small: "n < 2 ^ 53 \<Longrightarrow> round_to_double n = n"
  using bit_length_small [of n] by (simp add: round_to_double_def)

lemma round_to_double_pos: "0 < n \<Longrightarrow> 0 < round_to_double n"
proof -
  assume n: "0 < n"
  have "bit_length n - 53 \<le> bit_length n - 1" by simp
  then have "(2::nat) ^ (bit_length n - 53) \<le> 2 ^ (bit_length n - 1)"
    by (simp only: power_increasing_iff one_less_numeral_iff semiring_norm)
  then have "2 ^ (bit_length n - 53) \<le> n" using bit_length_bounds [OF n] by linarith
  then have "0 < n div 2 ^ (bit_length n - 53)" by (simp add: div_greater_zero_iff)
  then show ?thesis by (simp add: round_to_double_def Let_def)
qed

lemma int_to_double_small: "\<bar>n\<bar> < 2 ^ 53 \<Longrightarrow> int_to_double n = Inr n"
proof -
  assume a: "\<bar>n\<bar> < 2 ^ 53"
  then have "nat \<bar>n\<bar> < 2 ^ 53" by (simp add: nat_less_iff)
  then have r: "round_to_double (nat \<bar>n\<bar>) = nat \<bar>n\<bar>" by (rule round_to_double_small)
  have "nat \<bar>n\<bar> < 2 ^ DBL_MAX_EXP"
    using \<open>nat \<bar>n\<bar> < 2 ^ 53\<close> by (rule less_trans) (simp add: DBL_MAX_EXP_def)
  then show ?thesis by (simp add: int_to_double_def r mult_sgn_abs)
qed

lemma double_times_random:
  "double_times (real k / 2 ^ 53) t = real (round_to_double (k * nat t)) / 2 ^ 53"
  by (simp add: double_times_def)

lemma draw_choices_closed:
  "draw_choices population cum_weights total_weight hi n g =
     (map (\<lambda>k. population !
               bisect cum_weights (double_times (real (k mod 2 ^ 53) / 2 ^ 53) total_weight) 0 hi)
        (next_raws n g),
      drop n g)"
proof (induction n arbitrary: g)
  case 0
  show ?case by simp
next
  case (Suc n)
  show ?case
  proof (cases g)
    case Nil
    then show ?thesis
      using Suc [of "[]"] by (simp add: random_unit_def next_raw_def)
  next
    case (Cons k g')
    then show ?thesis
      using Suc [of g'] by (simp add: random_unit_def next_raw_def)
  qed
qed

lemma bisect_same: "bisect a x lo lo = lo"
  by (subst bisect.simps) simp

lemma round_to_double_0: "round_to_double 0 = 0"
  by (simp add: round_to_double_def bit_length_0)

lemma int_to_double_cases:
  "int_to_double n =
     (if 2 ^ DBL_MAX_EXP \<le> round_to_double (nat \<bar>n\<bar>) then Inl OverflowError
      else if n \<le> 0 then Inr (- int (round_to_double (nat \<bar>n\<bar>)))
      else Inr (int (round_to_double (nat n))))"
proof -
  consider "n < 0" | "n = 0" | "0 < n" by linarith
  then show ?thesis
  proof cases
    case 1
    then show ?thesis by (simp add: int_to_double_def Let_def)
  next
    case 2
    then show ?thesis by (simp add: int_to_double_def Let_def round_to_double_0)
  next
    case 3
    then show ?thesis by (simp add: int_to_double_def Let_def)
  qed
qed

lemma round_to_double_pos_int: "0 < n \<Longrightarrow> 0 < int (round_to_double (nat n))"
  using round_to_double_pos [of "nat n"] by simp

text \<open>
  Claim C5, amended. For every table, count and floor, \<^verbatim>\<open>get_entities_at_random\<close> fails with
  an \<^verbatim>\<open>IndexError\<close> when the combined table is empty, whatever the count (zero included);
  fails with an \<^verbatim>\<open>OverflowError\<close> when the combined table is not empty and the sum of its
  weights, rounded to a double, reaches \<open>2^1024\<close> in magnitude; fails with a \<^verbatim>\<open>ValueError\<close>
  when that sum is not positive; and otherwise returns a list of exactly \<open>count\<close> elements
  (none for a negative count), each a template of the combined mapping, the \<open>i\<close>-th being
  the one at which the double product of the \<open>i\<close>-th outcome of \<^verbatim>\<open>random.random()\<close> and the
  total bisects the cumulative weights. A sum below \<open>2^53\<close> in magnitude is its own double.
\<close>

theorem get_entities_at_random_result:
  "(let chances = entity_weighted_chances weighted_chances_by_floor floor_number [];
        total_weight = sum_list (map snd chances);
        pick = (\<lambda>k. map fst chances !
                  bisect (accumulate (map snd chances))
                    (double_times (real (k mod 2 ^ 53) / 2 ^ 53)
                       (int (round_to_double (nat total_weight))))
                    0 (length chances - 1))
    in get_entities_at_random weighted_chances_by_floor number_of_entities floor_number g =
         (if chances = [] then Inl ListIndexError
          else if 2 ^ DBL_MAX_EXP \<le> round_to_double (nat \<bar>total_weight\<bar>) then Inl OverflowError
          else if total_weight \<le> 0 then Inl ValueError
          else Inr (map pick (next_raws (nat number_of_entities) g),
                    drop (nat number_of_entities) g))
       \<and> length (map pick (next_raws (nat number_of_entities) g)) = nat number_of_entities
       \<and> (chances \<noteq> [] \<longrightarrow> (\<forall>k. pick k \<in> fst ` set chances))
       \<and> (\<bar>total_weight\<bar> < 2 ^ 53 \<longrightarrow>
            round_to_double (nat \<bar>total_weight\<bar>) = nat \<bar>total_weight\<bar>))"
proof -
  define chances where "chances = entity_weighted_chances weighted_chances_by_floor floor_number []"
  define total_weight where "total_weight = sum_list (map snd chances)"
  define pick where "pick = (\<lambda>k. map fst chances !
                  bisect (accumulate (map snd chances))
                    (double_times (real (k mod 2 ^ 53) / 2 ^ 53)
                       (int (round_to_double (nat total_weight))))
                    0 (length chances - 1))"
  have len: "length (accumulate (map snd chances)) = length chances"
    by (simp add: accumulate_def length_accumulate_from)
  have emp: "accumulate (map snd chances) = [] \<longleftrightarrow> chances = []"
    using len by (metis length_0_conv)
  have lst: "chances \<noteq> [] \<Longrightarrow> last (accumulate (map snd chances)) = total_weight"
    by (simp add: accumulate_def last_accumulate_from total_weight_def)
  have res: "get_entities_at_random weighted_chances_by_floor number_of_entities floor_number g =
         (if chances = [] then Inl ListIndexError
          else if 2 ^ DBL_MAX_EXP \<le> round_to_double (nat \<bar>total_weight\<bar>) then Inl OverflowError
          else if total_weight \<le> 0 then Inl ValueError
          else Inr (map pick (next_raws (nat number_of_entities) g),
                    drop (nat number_of_entities) g))"
  proof (cases "chances = []")
    case True
    then show ?thesis
      by (simp add: get_entities_at_random_def chances_def [symmetric] choices_def accumulate_def)
  next
    case False
    have c: "get_entities_at_random weighted_chances_by_floor number_of_entities floor_number g =
        (case int_to_double total_weight of
           Inl e \<Rightarrow> Inl e
         | Inr t \<Rightarrow>
             if t \<le> 0 then Inl ValueError
             else Inr (draw_choices (map fst chances) (accumulate (map snd chances)) t
                         (length chances - 1) (nat number_of_entities) g))"
      using False emp lst len
      by (simp add: get_entities_at_random_def chances_def [symmetric] choices_def Let_def)
    show ?thesis
    proof (cases "2 ^ DBL_MAX_EXP \<le> round_to_double (nat \<bar>total_weight\<bar>)")
      case True
      then show ?thesis using False by (simp add: c int_to_double_cases)
    next
      case no: False
      show ?thesis
      proof (cases "total_weight \<le> 0")
        case True
        then show ?thesis using False no by (simp add: c int_to_double_cases)
      next
        case pos: False
        then have p: "0 < int (round_to_double (nat total_weight))"
          using round_to_double_pos_int [of total_weight] by simp
        show ?thesis
          using False no pos p
          by (simp add: c int_to_double_cases draw_choices_closed pick_def)
      qed
    qed
  qed
  have mem: "pick k \<in> fst ` set chances" if ne: "chances \<noteq> []" for k
  proof -
    have "bisect (accumulate (map snd chances))
            (double_times (real (k mod 2 ^ 53) / 2 ^ 53) (int (round_to_double (nat total_weight))))
            0 (length chances - 1) \<le> length chances - 1"
      using bisect_bounds [of 0 "length chances - 1"] by simp
    then have "bisect (accumulate (map snd chances))
            (double_times (real (k mod 2 ^ 53) / 2 ^ 53) (int (round_to_double (nat total_weight))))
            0 (length chances - 1) < length (map fst chances)"
      using ne by (cases chances) simp_all
    then have "pick k \<in> set (map fst chances)"
      unfolding pick_def by (rule nth_mem)
    then show ?thesis by simp
  qed
  have small: "\<bar>total_weight\<bar> < 2 ^ 53 \<Longrightarrow>
      round_to_double (nat \<bar>total_weight\<bar>) = nat \<bar>total_weight\<bar>"
    by (rule round_to_double_small) (simp add: nat_less_iff)
  note res' = res [unfolded pick_def total_weight_def chances_def]
  note mem' = mem [unfolded pick_def total_weight_def chances_def]
  note small' = small [unfolded total_weight_def chances_def]
  show ?thesis
    unfolding Let_def
    apply (intro conjI impI allI)
       apply (rule res')
      apply (simp only: length_map length_next_raws)
     apply (rule mem')
     apply assumption
    apply (rule small')
    apply assumption
    done
qed

lemma enemy_floor_3: "entity_weighted_chances enemy_chances 3 [] = [(orc, 80), (troll, 15)]"
  by (simp add: enemy_chances_def)

lemma bisect_80_95:
  "bisect [80, 95] x 0 (Suc 0) = (if x < 80 then 0 else 1)"
  by (subst bisect.simps) (simp add: bisect_same)

text \<open>
  The instance of the spec: the table \<open>{0: [(A, 80)]}\<close>, count 5, floor 0, for every state
  of the random source. And a draw in which the rounding of the product decides: on floor
  3 the weights are 80 and 15, and for \<open>random() = 7585009898729256 / 2^53\<close> the exact
  product lies below 80 while the double product is 80, so the troll is drawn.
\<close>

theorem get_entities_at_random_single_template:
  "(\<forall>g. get_entities_at_random [(0, [(orc, 80)])] 5 0 g = Inr ([orc, orc, orc, orc, orc], drop 5 g))
   \<and> get_entities_at_random enemy_chances 1 3 [7585009898729256] = Inr ([troll], [])
   \<and> 7585009898729256 / 2 ^ 53 * (95 :: real) < 80
   \<and> double_times (7585009898729256 / 2 ^ 53) 95 = 80"
proof -
  have a: "get_entities_at_random [(0, [(orc, 80)])] 5 0 g = Inr ([orc, orc, orc, orc, orc], drop 5 g)"
    for g :: rng
  proof -
    have c: "entity_weighted_chances [(0, [(orc, 80)])] 0 [] = [(orc, 80)]" by simp
    have r: "replicate 5 orc = [orc, orc, orc, orc, orc]" by (simp add: eval_nat_numeral)
    have m: "map (\<lambda>k. orc) (next_raws 5 g) = replicate 5 orc"
      by (simp only: map_replicate_const length_next_raws)
    have s: "round_to_double 80 = 80" by (rule round_to_double_small) simp
    have l: "\<not> 2 ^ DBL_MAX_EXP \<le> (80 :: nat)" by (simp add: DBL_MAX_EXP_def)
    show ?thesis
      using get_entities_at_random_result [of "[(0, [(orc, 80)])]" 0 5 g] m
      unfolding Let_def c by (simp add: bisect_same r s l)
  qed
  have d: "double_times (7585009898729256 / 2 ^ 53) 95 = 80"
    by (simp add: double_times_def round_to_double_def bit_length.simps Let_def)
  have s: "round_to_double 95 = 95" by (rule round_to_double_small) simp
  have l: "\<not> 2 ^ DBL_MAX_EXP \<le> (95 :: nat)" by (simp add: DBL_MAX_EXP_def)
  have b: "get_entities_at_random enemy_chances 1 3 [7585009898729256] = Inr ([troll], [])"
    using get_entities_at_random_result [of enemy_chances 3 1 "[7585009898729256]"] d
    unfolding Let_def enemy_floor_3
    by (simp add: s l accumulate_def next_raw_def bisect_80_95)
  have e: "7585009898729256 / 2 ^ 53 * (95 :: real) < 80" by simp
  show ?thesis using a b d e by (intro conjI allI)
qed

text \<open>
  Claim C5 as stated fails for count 0 on an empty combined table: \<^verbatim>\<open>random.choices\<close> reads
  \<^verbatim>\<open>cum_weights[-1]\<close> before it draws anything. It also fails on combined tables that are
  not empty: with a weight too large for a double, and with a total weight of zero.
\<close>

theorem get_entities_at_random_empty_count_0:
  "get_entities_at_random [(1, [(orc, 80)])] 0 0 [] = Inl ListIndexError
   \<and> get_entities_at_random [(0, [(orc, 2 ^ 1024)])] 5 0 [] = Inl OverflowError
   \<and> get_entities_at_random [(0, [(orc, 0)])] 5 0 [] = Inl ValueError"
proof -
  have a: "get_entities_at_random [(1, [(orc, 80)])] 0 0 [] = Inl ListIndexError"
    by (simp add: get_entities_at_random_def choices_def accumulate_def)
  have r: "round_to_double (2 ^ 1024) = 2 ^ 1024"
    by (simp add: round_to_double_def bit_length.simps Let_def)
  have b: "get_entities_at_random [(0, [(orc, 2 ^ 1024)])] 5 0 [] = Inl OverflowError"
    using r
    by (simp add: get_entities_at_random_def choices_def accumulate_def int_to_double_def
          DBL_MAX_EXP_def Let_def)
  have c: "get_entities_at_random [(0, [(orc, 0)])] 5 0 [] = Inl ValueError"
    by (simp add: get_entities_at_random_def choices_def accumulate_def int_to_double_small)
  show ?thesis using a b c by (intro conjI)
qed


section \<open>Properties of populating a room\<close>

lemma mod_width_bound:
  fixes a b :: int
  assumes "a \<le> b"
  shows "int (k mod nat (b - a + 1)) \<le> b - a"
proof -
  have pos: "0 < nat (b - a + 1)" using assms by simp
  have "k mod nat (b - a + 1) < nat (b - a + 1)" using pos by (rule mod_less_divisor)
  then show ?thesis using assms by linarith
qed

lemma randint_range:
  assumes "randint a b g = Inr (v, g')"
  shows "a \<le> v \<and> v \<le> b \<and> g' = snd (next_raw g)"
proof -
  have ab: "a \<le> b" using assms by (auto simp: randint_def split: if_splits)
  have v: "v = a + int (fst (next_raw g) mod nat (b - a + 1))" and g: "g' = snd (next_raw g)"
    using assms ab by (auto simp: randint_def Let_def split: prod.splits)
  show ?thesis using mod_width_bound [OF ab, of "fst (next_raw g)"] v g by simp
qed

lemma randint_fails: "randint a b g = Inl e \<Longrightarrow> e = ValueError \<and> b < a"
  by (auto simp: randint_def Let_def split: if_splits prod.splits)

lemma randint_cons:
  "a \<le> b \<Longrightarrow> randint a b (k # g) = Inr (a + int (k mod nat (b - a + 1)), g)"
  by (simp add: randint_def next_raw_def)

lemma randint_one_raw_per_value:
  assumes "a \<le> v" "v \<le> b"
  shows "\<exists>!k. k < nat (b - a + 1) \<and> randint a b (k # g) = Inr (v, g)"
proof
  have "nat (v - a) < nat (b - a + 1)" using assms by linarith
  then show "nat (v - a) < nat (b - a + 1) \<and> randint a b (nat (v - a) # g) = Inr (v, g)"
    using assms by (simp add: randint_cons)
next
  fix k assume k: "k < nat (b - a + 1) \<and> randint a b (k # g) = Inr (v, g)"
  then have m: "k mod nat (b - a + 1) = k" by simp
  have "a \<le> b" using assms by simp
  from randint_cons [OF this, of k g] k have "a + int (k mod nat (b - a + 1)) = v" by simp
  then have "a + int k = v" unfolding m .
  then show "k = nat (v - a)" by linarith
qed

lemma in_inner_Rect:
  "(i, j) \<in> set (inner (Rect a b c d)) \<longleftrightarrow> a < i \<and> i < c \<and> b < j \<and> j < d"
proof -
  have "(i, j) \<in> set (inner (Rect a b c d)) \<longleftrightarrow> i \<in> {a + 1..c - 1} \<and> j \<in> {b + 1..d - 1}"
    by (auto simp: image_iff)
  also have "\<dots> \<longleftrightarrow> a < i \<and> i < c \<and> b < j \<and> j < d" by auto
  finally show ?thesis .
qed

lemma place_loop_step:
  "place_loop room (entity # rest) d g =
     (case randint (x1 room + 1) (x2 room - 1) g of
        Inl e \<Rightarrow> Inl (e, d)
      | Inr (x, g1) \<Rightarrow>
          (case randint (y1 room + 1) (y2 room - 1) g1 of
             Inl e \<Rightarrow> Inl (e, d)
           | Inr (y, g2) \<Rightarrow>
               place_loop room rest
                 (if list_ex (\<lambda>e. ent_x e = x \<and> ent_y e = y) (entities d) then d
                  else spawn entity d x y) g2))"
  by (simp add: then_do_def lift_def split: sum.splits prod.splits)

declare place_loop.simps(2) [simp del]

lemma place_loop_result:
  "place_loop room ents d g = Inr (d', g') \<Longrightarrow>
     \<exists>new. d' = d\<lparr>entities := entities d @ new\<rparr>
       \<and> length new \<le> length ents
       \<and> (\<forall>e \<in> set new. inside_box room e \<and> kind e \<in> set ents)
       \<and> distinct (map (\<lambda>e. (ent_x e, ent_y e)) new)
       \<and> (\<forall>e \<in> set new. \<forall>e' \<in> set (entities d). (ent_x e, ent_y e) \<noteq> (ent_x e', ent_y e'))
       \<and> g' = drop (2 * length ents) g"
proof (induction ents arbitrary: d g)
  case Nil
  then have "d' = d\<lparr>entities := entities d @ []\<rparr>" "g' = g" by simp_all
  then show ?case by (intro exI [of _ "[]"]) simp
next
  case (Cons entity rest)
  from Cons.prems obtain x g1 where rx: "randint (x1 room + 1) (x2 room - 1) g = Inr (x, g1)"
    by (auto simp: place_loop_step split: sum.splits)
  from Cons.prems rx obtain y g2 where ry: "randint (y1 room + 1) (y2 room - 1) g1 = Inr (y, g2)"
    by (auto simp: place_loop_step split: sum.splits)
  have bx: "x1 room < x \<and> x < x2 room" and g1: "g1 = snd (next_raw g)"
    using randint_range [OF rx] by auto
  have by': "y1 room < y \<and> y < y2 room" and g2: "g2 = snd (next_raw g1)"
    using randint_range [OF ry] by auto
  have dr: "drop (2 * length rest) g2 = drop (2 * length (entity # rest)) g"
    unfolding g2 g1 by (cases g; cases "tl g") (simp_all add: next_raw_def)
  show ?case
  proof (cases "list_ex (\<lambda>e. ent_x e = x \<and> ent_y e = y) (entities d)")
    case True
    then have "place_loop room rest d g2 = Inr (d', g')"
      using Cons.prems rx ry by (simp add: place_loop_step)
    from Cons.IH [OF this] obtain new where n:
      "d' = d\<lparr>entities := entities d @ new\<rparr>" "length new \<le> length rest"
      "\<forall>e \<in> set new. inside_box room e \<and> kind e \<in> set rest"
      "distinct (map (\<lambda>e. (ent_x e, ent_y e)) new)"
      "\<forall>e \<in> set new. \<forall>e' \<in> set (entities d). (ent_x e, ent_y e) \<noteq> (ent_x e', ent_y e')"
      "g' = drop (2 * length rest) g2"
      by blast
    show ?thesis
      using n dr by (intro exI [of _ new]) auto
  next
    case False
    let ?e = "\<lparr>kind = entity, ent_x = x, ent_y = y\<rparr>"
    from False have "place_loop room rest (spawn entity d x y) g2 = Inr (d', g')"
      using Cons.prems rx ry by (simp add: place_loop_step)
    from Cons.IH [OF this] obtain new where n:
      "d' = (spawn entity d x y)\<lparr>entities := entities (spawn entity d x y) @ new\<rparr>"
      "length new \<le> length rest"
      "\<forall>e \<in> set new. inside_box room e \<and> kind e \<in> set rest"
      "distinct (map (\<lambda>e. (ent_x e, ent_y e)) new)"
      "\<forall>e \<in> set new. \<forall>e' \<in> set (entities (spawn entity d x y)).
          (ent_x e, ent_y e) \<noteq> (ent_x e', ent_y e')"
      "g' = drop (2 * length rest) g2"
      by blast
    have free: "\<forall>e' \<in> set (entities d). (x, y) \<noteq> (ent_x e', ent_y e')"
      using False by (auto simp: list_ex_iff)
    have 1: "d' = d\<lparr>entities := entities d @ (?e # new)\<rparr>"
      using n(1) by (simp add: spawn_def)
    have 2: "length (?e # new) \<le> length (entity # rest)" using n(2) by simp
    have 3: "\<forall>e \<in> set (?e # new). inside_box room e \<and> kind e \<in> set (entity # rest)"
      using n(3) bx by' by (auto simp: inside_box_def)
    have 4: "distinct (map (\<lambda>e. (ent_x e, ent_y e)) (?e # new))"
      using n(4) n(5) by (auto simp: spawn_def)
    have 5: "\<forall>e \<in> set (?e # new). \<forall>e' \<in> set (entities d). (ent_x e, ent_y e) \<noteq> (ent_x e', ent_y e')"
      using n(5) free by (auto simp: spawn_def)
    show ?thesis
      using 1 2 3 4 5 n(6) dr by (intro exI [of _ "?e # new"]) simp
  qed
qed

lemma place_loop_fails:
  "place_loop room ents d g = Inl (e, d') \<Longrightarrow>
     e = ValueError \<and> d' = d \<and> (x2 room - 1 < x1 room + 1 \<or> y2 room - 1 < y1 room + 1)"
proof (cases ents)
  case Nil
  assume "place_loop room ents d g = Inl (e, d')"
  then show ?thesis using Nil by simp
next
  case (Cons entity rest)
  assume f: "place_loop room ents d g = Inl (e, d')"
  show ?thesis
  proof (rule ccontr)
    assume neg: "\<not> (e = ValueError \<and> d' = d \<and> (x2 room - 1 < x1 room + 1 \<or> y2 room - 1 < y1 room + 1))"
    have ok: "\<not> (x2 room - 1 < x1 room + 1 \<or> y2 room - 1 < y1 room + 1)"
    proof
      assume b: "x2 room - 1 < x1 room + 1 \<or> y2 room - 1 < y1 room + 1"
      have "e = ValueError \<and> d' = d"
        using f Cons b
        by (auto simp: place_loop_step randint_def Let_def split: sum.splits prod.splits if_splits)
      with b neg show False by simp
    qed
    have tot: "\<exists>r. place_loop room es d0 g0 = Inr r" for es d0 g0
    proof (induction es arbitrary: d0 g0)
      case Nil
      show ?case by simp
    next
      case (Cons a es)
      show ?case
        using ok Cons
        by (simp add: place_loop_step randint_def Let_def split: prod.splits)
    qed
    from tot [of ents d g] f show False by simp
  qed
qed

lemma place_loop_total:
  "x1 room + 1 \<le> x2 room - 1 \<Longrightarrow> y1 room + 1 \<le> y2 room - 1 \<Longrightarrow>
     \<exists>r. place_loop room ents d g = Inr r"
proof (induction ents arbitrary: d g)
  case Nil
  show ?case by simp
next
  case (Cons a es)
  then show ?case
    by (simp add: place_loop_step randint_def Let_def split: prod.splits)
qed

lemma choices_single:
  "0 < w \<Longrightarrow> w < 2 ^ 53 \<Longrightarrow> choices [a] [w] k g = Inr (replicate (nat k) a, drop (nat k) g)"
proof -
  assume w: "0 < w" "w < 2 ^ 53"
  have "map (\<lambda>k. a) (next_raws (nat k) g) = replicate (nat k) a"
    by (simp only: map_replicate_const length_next_raws)
  moreover have "int_to_double w = Inr w" using w by (intro int_to_double_small) simp
  ultimately show ?thesis
    using w by (simp add: choices_def accumulate_def draw_choices_closed bisect_same)
qed

lemma place_entities_unfold:
  "place_entities room d floor_number g = Inr r \<Longrightarrow>
     \<exists>drawn g4. place_loop room drawn d g4 = Inr r"
  by (auto simp: place_entities_def then_do_def lift_def split: sum.splits prod.splits)

text \<open>
  In a rectangular room, whatever \<^verbatim>\<open>place_entities\<close> adds to the level stands on a tile of
  the room's inner area, at a position that no other entity has.
\<close>

lemma place_entities_rectangular_room:
  assumes "place_entities (Rect a b c e) d floor_number g = Inr (d', g')"
  shows "\<exists>new. d' = d\<lparr>entities := entities d @ new\<rparr>
           \<and> (\<forall>n \<in> set new. (ent_x n, ent_y n) \<in> set (inner (Rect a b c e)))
           \<and> distinct (map (\<lambda>n. (ent_x n, ent_y n)) new)
           \<and> (\<forall>n \<in> set new. \<forall>other \<in> set (entities d). (ent_x n, ent_y n) \<noteq> (ent_x other, ent_y other))"
proof -
  from place_entities_unfold [OF assms] obtain drawn g4
    where l: "place_loop (Rect a b c e) drawn d g4 = Inr (d', g')" by blast
  from place_loop_result [OF l] obtain new where n:
    "d' = d\<lparr>entities := entities d @ new\<rparr>"
    "\<forall>n \<in> set new. inside_box (Rect a b c e) n \<and> kind n \<in> set drawn"
    "distinct (map (\<lambda>n. (ent_x n, ent_y n)) new)"
    "\<forall>n \<in> set new. \<forall>other \<in> set (entities d). (ent_x n, ent_y n) \<noteq> (ent_x other, ent_y other)"
    by blast
  have "\<forall>n \<in> set new. (ent_x n, ent_y n) \<in> set (inner (Rect a b c e))"
    using n(2) by (simp only: in_inner_Rect inside_box_def x1.simps x2.simps y1.simps y2.simps) simp
  then show ?thesis using n(1,3,4) by blast
qed

lemma enemy_floor_1: "entity_weighted_chances enemy_chances 1 [] = [(orc, 80)]"
  by (simp add: enemy_chances_def)

lemma item_floor_1: "entity_weighted_chances item_chances 1 [] = [(health_potion, 35)]"
  by (simp add: item_chances_def)

lemma max_floor_1:
  "get_max_value_for_floor max_monsters_by_floor 1 = 2"
  "get_max_value_for_floor max_items_by_floor 1 = 1"
  by (simp_all add: get_max_value_for_floor_def max_monsters_by_floor_def max_items_by_floor_def)

text \<open>
  On floor 1, with one monster and no item drawn, the loop runs once, for an orc. In a
  rectangular room of width 1 there is no column between the corners, and the draw of the
  position raises \<^verbatim>\<open>ValueError\<close>.
\<close>

lemma place_entities_one_orc:
  "place_entities room d 1 (Suc 0 # 0 # k # g) = place_loop room [orc] d g"
  by (simp add: place_entities_def then_do_def lift_def max_floor_1 randint_def next_raw_def
        get_entities_at_random_def enemy_floor_1 item_floor_1 choices_single)

lemma place_entities_room_without_interior:
  "place_entities (RectangularRoom 0 0 1 1) d 1 [1, 0, 0] = Inl (ValueError, d)"
  by (simp add: place_entities_one_orc place_loop_step RectangularRoom_def randint_def
        then_do_def lift_def)


section \<open>Properties of level generation\<close>

lemma array_index_in_range: "0 \<le> i \<Longrightarrow> i < n \<Longrightarrow> array_index n i = Some i"
  by (simp add: array_index_def)

lemma set_tile_in_bounds:
  "in_bounds d xy \<Longrightarrow>
     set_tile d xy t = Inr (d\<lparr>tiles := (tiles d)(xy := t), written := written d @ [xy]\<rparr>)"
  by (cases xy) (simp add: set_tile_def in_bounds_def array_index_in_range)

lemma set_tile_Inr:
  assumes "set_tile d xy t = Inr d'"
  shows "width d' = width d \<and> height d' = height d \<and> written d' = written d @ [xy]
       \<and> entities d' = entities d \<and> tile_at d' xy = Some t
       \<and> visible d' = visible d \<and> explored d' = explored d
       \<and> downstairs_location d' = downstairs_location d"
  using assms
  by (auto simp: set_tile_def tile_at_def split: option.splits)

lemma set_tile_Inl:
  assumes "set_tile d xy t = Inl (e, d')"
  shows "d' = d \<and> e = ArrayIndexError xy \<and> \<not> in_bounds d xy"
  using assms
  by (auto simp: set_tile_def in_bounds_def array_index_def split: option.splits if_splits)

lemma set_tiles_in_bounds:
  "\<forall>p \<in> set path. in_bounds d p \<Longrightarrow>
     \<exists>d'. set_tiles d path t = Inr d' \<and> width d' = width d \<and> height d' = height d
        \<and> written d' = written d @ path \<and> entities d' = entities d
        \<and> downstairs_location d' = downstairs_location d"
proof (induction path arbitrary: d)
  case Nil
  show ?case by simp
next
  case (Cons xy path)
  let ?d1 = "d\<lparr>tiles := (tiles d)(xy := t), written := written d @ [xy]\<rparr>"
  have s: "set_tile d xy t = Inr ?d1" using Cons.prems by (simp add: set_tile_in_bounds)
  have "\<forall>p \<in> set path. in_bounds ?d1 p" using Cons.prems by (simp add: in_bounds_def)
  from Cons.IH [OF this] show ?case by (auto simp: s then_do_def)
qed

lemma set_tiles_Inr:
  "set_tiles d path t = Inr d' \<Longrightarrow>
     width d' = width d \<and> height d' = height d \<and> written d' = written d @ path
       \<and> entities d' = entities d \<and> downstairs_location d' = downstairs_location d"
proof (induction path arbitrary: d)
  case Nil
  then show ?case by simp
next
  case (Cons xy path)
  from Cons.prems obtain d1 where s: "set_tile d xy t = Inr d1" and r: "set_tiles d1 path t = Inr d'"
    by (auto simp: then_do_def split: sum.splits)
  from Cons.IH [OF r] set_tile_Inr [OF s] show ?case by simp
qed

lemma set_tiles_Inl:
  "set_tiles d path t = Inl (e, d') \<Longrightarrow>
     \<exists>pre p. e = ArrayIndexError p \<and> \<not> in_bounds d p \<and> p \<in> set path
       \<and> width d' = width d \<and> height d' = height d
       \<and> written d' = written d @ pre \<and> set pre \<subseteq> set path"
proof (induction path arbitrary: d)
  case Nil
  then show ?case by simp
next
  case (Cons xy path)
  show ?case
  proof (cases "set_tile d xy t")
    case (Inl a)
    then have "a = (e, d')" using Cons.prems by (simp add: then_do_def)
    with Inl set_tile_Inl [of d xy t e d'] show ?thesis
      by (intro exI [of _ "[]"] exI [of _ xy]) simp
  next
    case (Inr d1)
    then have r: "set_tiles d1 path t = Inl (e, d')" using Cons.prems by (simp add: then_do_def)
    from Cons.IH [OF r] obtain pre p where
      ih: "e = ArrayIndexError p" "\<not> in_bounds d1 p" "p \<in> set path"
          "width d' = width d1" "height d' = height d1"
          "written d' = written d1 @ pre" "set pre \<subseteq> set path"
      by blast
    have w: "width d1 = width d" "height d1 = height d" "written d1 = written d @ [xy]"
      using set_tile_Inr [OF Inr] by simp_all
    have nb: "\<not> in_bounds d p" using ih(2) w by (simp add: in_bounds_def)
    show ?thesis
      using ih w nb by (intro exI [of _ "xy # pre"] exI [of _ p]) auto
  qed
qed

lemma slice_indices_in_range:
  "0 \<le> n \<Longrightarrow> i \<in> set (slice_indices n s) \<Longrightarrow> 0 \<le> i \<and> i < n"
  by (auto simp: slice_indices_def slice_bound_def split: if_splits)

lemma set_tiles_slice_props:
  "width (set_tiles_slice d sl t) = width d"
  "height (set_tiles_slice d sl t) = height d"
  "entities (set_tiles_slice d sl t) = entities d"
  "downstairs_location (set_tiles_slice d sl t) = downstairs_location d"
  by (simp_all add: set_tiles_slice_def Let_def)

lemma set_tiles_slice_written:
  assumes "0 \<le> width d" "0 \<le> height d"
  shows "\<exists>cells. written (set_tiles_slice d sl t) = written d @ cells
           \<and> (\<forall>p \<in> set cells. in_bounds d p)"
proof -
  let ?cells = "[(i, j). i \<leftarrow> slice_indices (width d) (fst sl), j \<leftarrow> slice_indices (height d) (snd sl)]"
  have "\<forall>p \<in> set ?cells. in_bounds d p"
    using slice_indices_in_range [OF assms(1)] slice_indices_in_range [OF assms(2)]
    by (auto simp: in_bounds_def)
  then show ?thesis by (intro exI [of _ ?cells]) (simp add: set_tiles_slice_def Let_def)
qed

lemma walk_horizontal_points:
  "0 < sx * dx \<Longrightarrow> 0 \<le> e \<Longrightarrow> p \<in> set (bresenham_walk (sx, 0) (dx, 0) n e (x, y)) \<Longrightarrow>
     snd p = y \<and> (\<exists>k. 1 \<le> k \<and> k \<le> int n \<and> fst p = x + k * sx)"
proof (induction n arbitrary: x)
  case 0
  then show ?case by simp
next
  case (Suc n)
  from Suc.prems(3) Suc.prems(1,2)
  have "p = (x + sx, y) \<or> p \<in> set (bresenham_walk (sx, 0) (dx, 0) n e (x + sx, y))"
    by (auto split: if_splits)
  then show ?case
  proof
    assume "p = (x + sx, y)"
    then show ?thesis by (auto intro!: exI [of _ 1])
  next
    assume "p \<in> set (bresenham_walk (sx, 0) (dx, 0) n e (x + sx, y))"
    from Suc.IH [OF Suc.prems(1,2) this] obtain k where
      k: "snd p = y" "1 \<le> k" "k \<le> int n" "fst p = x + sx + k * sx" by auto
    then show ?thesis by (auto intro!: exI [of _ "k + 1"] simp: algebra_simps)
  qed
qed

lemma walk_vertical_points:
  "0 \<le> sy * dy \<Longrightarrow> 0 \<le> e \<Longrightarrow> p \<in> set (bresenham_walk (0, sy) (0, dy) n e (x, y)) \<Longrightarrow>
     fst p = x \<and> (\<exists>k. 1 \<le> k \<and> k \<le> int n \<and> snd p = y + k * sy)"
proof (induction n arbitrary: y)
  case 0
  then show ?case by simp
next
  case (Suc n)
  from Suc.prems(3) Suc.prems(1,2)
  have "p = (x, y + sy) \<or> p \<in> set (bresenham_walk (0, sy) (0, dy) n e (x, y + sy))"
    by (auto split: if_splits)
  then show ?case
  proof
    assume "p = (x, y + sy)"
    then show ?thesis by (auto intro!: exI [of _ 1])
  next
    assume "p \<in> set (bresenham_walk (0, sy) (0, dy) n e (x, y + sy))"
    from Suc.IH [OF Suc.prems(1,2) this] obtain k where
      k: "fst p = x" "1 \<le> k" "k \<le> int n" "snd p = y + sy + k * sy" by auto
    then show ?thesis by (auto intro!: exI [of _ "k + 1"] simp: algebra_simps)
  qed
qed

lemma between_steps:
  fixes a c k :: int
  assumes "0 \<le> k" "k \<le> \<bar>c - a\<bar>"
  shows "min a c \<le> a + k * sgn (c - a) \<and> a + k * sgn (c - a) \<le> max a c"
proof (cases "a \<le> c")
  case True
  then show ?thesis using assms by (cases "a = c") (auto simp: sgn_if)
next
  case False
  then show ?thesis using assms by (auto simp: sgn_if)
qed

lemma bresenham_horizontal_points:
  assumes "p \<in> set (bresenham (a, b) (c, b))"
  shows "snd p = b \<and> min a c \<le> fst p \<and> fst p \<le> max a c"
proof (cases "p = (a, b)")
  case True
  then show ?thesis by auto
next
  case False
  then have w: "p \<in> set (bresenham_walk (sgn (c - a), 0) (2 * (c - a), 0) (nat \<bar>c - a\<bar>) \<bar>c - a\<bar> (a, b))"
    using assms by (simp add: bresenham_def Let_def)
  then have ne: "c \<noteq> a" by auto
  then have pos: "0 < sgn (c - a) * (2 * (c - a))" by (auto simp: sgn_if)
  from walk_horizontal_points [OF pos _ w] obtain k where
    k: "snd p = b" "1 \<le> k" "k \<le> int (nat \<bar>c - a\<bar>)" "fst p = a + k * sgn (c - a)" by auto
  then have "0 \<le> k" "k \<le> \<bar>c - a\<bar>" by auto
  from between_steps [OF this] k show ?thesis by simp
qed

lemma bresenham_vertical_points:
  assumes "p \<in> set (bresenham (a, b) (a, d))"
  shows "fst p = a \<and> min b d \<le> snd p \<and> snd p \<le> max b d"
proof (cases "p = (a, b)")
  case True
  then show ?thesis by auto
next
  case False
  then have w: "p \<in> set (bresenham_walk (0, sgn (d - b)) (0, 2 * (d - b)) (nat \<bar>d - b\<bar>) \<bar>d - b\<bar> (a, b))"
    using assms by (simp add: bresenham_def Let_def)
  have pos: "0 \<le> sgn (d - b) * (2 * (d - b))" by (auto simp: sgn_if)
  from walk_vertical_points [OF pos _ w] obtain k where
    k: "fst p = a" "1 \<le> k" "k \<le> int (nat \<bar>d - b\<bar>)" "snd p = b + k * sgn (d - b)" by auto
  then have "0 \<le> k" "k \<le> \<bar>d - b\<bar>" by auto
  from between_steps [OF this] k show ?thesis by simp
qed

lemma tunnel_between_points:
  assumes "p \<in> set (fst (tunnel_between start dest g))"
  shows "min (fst start) (fst dest) \<le> fst p \<and> fst p \<le> max (fst start) (fst dest)
       \<and> min (snd start) (snd dest) \<le> snd p \<and> snd p \<le> max (snd start) (snd dest)"
proof -
  obtain a b where s: "start = (a, b)" by (cases start)
  obtain c d where e: "dest = (c, d)" by (cases dest)
  let ?u = "fst (random_unit g)"
  have mem: "p \<in> set (bresenham (a, b) (tunnel_corner (a, b) (c, d) ?u))
           \<or> p \<in> set (bresenham (tunnel_corner (a, b) (c, d) ?u) (c, d))"
    using assms by (auto simp: s e tunnel_between_def Let_def split: prod.splits)
  have "min a c \<le> fst p \<and> fst p \<le> max a c \<and> min b d \<le> snd p \<and> snd p \<le> max b d"
  proof (cases "?u < 0.5")
    case True
    then have c: "tunnel_corner (a, b) (c, d) ?u = (c, b)" by (simp add: tunnel_corner_def)
    from mem have "p \<in> set (bresenham (a, b) (c, b)) \<or> p \<in> set (bresenham (c, b) (c, d))"
      by (simp only: c)
    then show ?thesis
    proof
      assume "p \<in> set (bresenham (a, b) (c, b))"
      from bresenham_horizontal_points [OF this] show ?thesis by auto
    next
      assume "p \<in> set (bresenham (c, b) (c, d))"
      from bresenham_vertical_points [OF this] show ?thesis by auto
    qed
  next
    case False
    then have c: "tunnel_corner (a, b) (c, d) ?u = (a, d)" by (simp add: tunnel_corner_def)
    from mem have "p \<in> set (bresenham (a, b) (a, d)) \<or> p \<in> set (bresenham (a, d) (c, d))"
      by (simp only: c)
    then show ?thesis
    proof
      assume "p \<in> set (bresenham (a, b) (a, d))"
      from bresenham_vertical_points [OF this] show ?thesis by auto
    next
      assume "p \<in> set (bresenham (a, d) (c, d))"
      from bresenham_horizontal_points [OF this] show ?thesis by auto
    qed
  qed
  then show ?thesis by (simp add: s e)
qed

lemma tunnel_between_in_bounds:
  assumes "in_bounds d start" "in_bounds d dest" "p \<in> set (fst (tunnel_between start dest g))"
  shows "in_bounds d p"
  using tunnel_between_points [OF assms(3)] assms(1,2)
  by (auto simp: in_bounds_def)

lemma get_entities_at_random_Inl:
  "get_entities_at_random table n fl g = Inl e \<Longrightarrow>
     e = ValueError \<or> e = ListIndexError \<or> e = OverflowError"
  by (auto simp: get_entities_at_random_def choices_def int_to_double_def Let_def
        split: if_splits sum.splits)

lemma place_entities_Inr:
  assumes "place_entities room d fl g = Inr (d', g')"
  shows "\<exists>new. d' = d\<lparr>entities := entities d @ new\<rparr>"
proof -
  from assms obtain drawn g4 where "place_loop room drawn d g4 = Inr (d', g')"
    by (auto simp: place_entities_def then_do_def lift_def split: sum.splits prod.splits)
  from place_loop_result [OF this] show ?thesis by blast
qed

lemma place_entities_Inl:
  assumes "place_entities room d fl g = Inl (e, d')"
  shows "d' = d \<and> (e = ValueError \<or> e = ListIndexError \<or> e = OverflowError)"
proof -
  have r: "randint a b g0 = Inl e0 \<Longrightarrow> e0 = ValueError" for a b g0 e0
    using randint_fails by blast
  from assms show ?thesis
    by (auto simp: place_entities_def then_do_def lift_def
          split: sum.splits prod.splits
          dest!: r get_entities_at_random_Inl place_loop_fails)
qed

lemma then_do_Inl [simp]: "then_do (Inl e) f = Inl e"
  by (simp add: then_do_def)

lemma then_do_Inr [simp]: "then_do (Inr v) f = f v"
  by (simp add: then_do_def)

lemma then_do_assoc: "then_do (then_do m f) h = then_do m (\<lambda>v. then_do (f v) h)"
  by (cases m) simp_all

lemma add_room_skip:
  "list_ex (\<lambda>other_room. intersects new_room other_room) (rooms st) \<Longrightarrow>
     add_room carve player_xy fl new_room st = Inr st"
  by (simp add: add_room_def)

lemma add_room_first:
  "rooms st = [] \<Longrightarrow>
   add_room carve player_xy fl new_room st =
     then_do (carve (dungeon st) new_room) (\<lambda>d1.
     then_do (place_entities new_room (place (player_xy new_room) d1) fl (rng_state st)) (\<lambda>(d3, g2).
     then_do (set_tile d3 (center_of_last_room st) tile_down_stairs) (\<lambda>d4.
       Inr \<lparr>dungeon = d4\<lparr>downstairs_location := center_of_last_room st\<rparr>, rooms = [new_room],
            center_of_last_room = center_of_last_room st, rng_state = g2\<rparr>)))"
  by (simp add: add_room_def)

lemma add_room_next:
  "rooms st \<noteq> [] \<Longrightarrow> \<not> list_ex (\<lambda>other_room. intersects new_room other_room) (rooms st) \<Longrightarrow>
   add_room carve player_xy fl new_room st =
     then_do (carve (dungeon st) new_room) (\<lambda>d1.
     then_do (set_tiles d1 (fst (tunnel_between (center (last (rooms st))) (center new_room) (rng_state st)))
                tile_floor) (\<lambda>d2.
     then_do (place_entities new_room d2 fl
                (snd (tunnel_between (center (last (rooms st))) (center new_room) (rng_state st))))
       (\<lambda>(d3, g2).
     then_do (set_tile d3 (center new_room) tile_down_stairs) (\<lambda>d4.
       Inr \<lparr>dungeon = d4\<lparr>downstairs_location := center new_room\<rparr>,
            rooms = rooms st @ [new_room],
            center_of_last_room = center new_room, rng_state = g2\<rparr>))))"
  by (simp add: add_room_def Let_def case_prod_beta then_do_assoc)

lemma then_do_eq_Inr: "then_do m f = Inr r \<longleftrightarrow> (\<exists>v. m = Inr v \<and> f v = Inr r)"
  by (cases m) simp_all

lemma tile_at_downstairs_update [simp]:
  "tile_at (d\<lparr>downstairs_location := c\<rparr>) xy = tile_at d xy"
  by (auto simp: tile_at_def split: option.splits)

lemma add_room_Inr:
  assumes "add_room carve player_xy fl new_room st = Inr st'"
  shows "(list_ex (\<lambda>other_room. intersects new_room other_room) (rooms st) \<and> st' = st)
       \<or> (\<not> list_ex (\<lambda>other_room. intersects new_room other_room) (rooms st)
           \<and> rooms st' = rooms st @ [new_room]
           \<and> (rooms st = [] \<longrightarrow> center_of_last_room st' = center_of_last_room st)
           \<and> (rooms st \<noteq> [] \<longrightarrow> center_of_last_room st' = center new_room)
           \<and> downstairs_location (dungeon st') = center_of_last_room st'
           \<and> tile_at (dungeon st') (center_of_last_room st') = Some tile_down_stairs)"
proof (cases "list_ex (\<lambda>other_room. intersects new_room other_room) (rooms st)")
  case True
  then show ?thesis using assms by (simp add: add_room_skip)
next
  case False
  show ?thesis
  proof (cases "rooms st = []")
    case True
    from assms obtain d1 d3 g2 d4 where
      s: "set_tile d3 (center_of_last_room st) tile_down_stairs = Inr d4"
      and r: "st' = \<lparr>dungeon = d4\<lparr>downstairs_location := center_of_last_room st\<rparr>,
            rooms = [new_room], center_of_last_room = center_of_last_room st, rng_state = g2\<rparr>"
      unfolding add_room_first [OF True] by (auto simp: then_do_eq_Inr split: prod.splits)
    from set_tile_Inr [OF s] r True False show ?thesis by simp
  next
    case ne: False
    from assms obtain d1 d2 d3 g2 d4 where
      s: "set_tile d3 (center new_room) tile_down_stairs = Inr d4"
      and r: "st' = \<lparr>dungeon = d4\<lparr>downstairs_location := center new_room\<rparr>,
            rooms = rooms st @ [new_room], center_of_last_room = center new_room, rng_state = g2\<rparr>"
      unfolding add_room_next [OF ne False] by (auto simp: then_do_eq_Inr split: prod.splits)
    from set_tile_Inr [OF s] r ne False show ?thesis by simp
  qed
qed

text \<open>Both loop bodies draw a room and hand it to \<open>add_room\<close>.\<close>

lemma lift_eq_Inr: "lift d r = Inr v \<longleftrightarrow> r = Inr v"
  by (cases r) (simp_all add: lift_def)

lemma generate_dungeon_step_Inr:
  assumes "generate_dungeon_step lo hi fl st = Inr st'"
  shows "\<exists>carve player_xy current_floor new_room g.
           add_room carve player_xy current_floor new_room (st\<lparr>rng_state := g\<rparr>) = Inr st'"
  using assms
  by (auto simp: generate_dungeon_step_def then_do_eq_Inr lift_eq_Inr split: prod.splits; blast)

lemma test_dungeon_step_Inr:
  assumes "test_dungeon_step lo hi fl st = Inr st'"
  shows "\<exists>carve player_xy current_floor new_room g.
           add_room carve player_xy current_floor new_room (st\<lparr>rng_state := g\<rparr>) = Inr st'"
proof -
  obtain u g0 where u: "random_unit (rng_state st) = (u, g0)" by (cases "random_unit (rng_state st)")
  show ?thesis
    using assms unfolding test_dungeon_step_def u Let_def prod.case
    by (auto simp: then_do_eq_Inr lift_eq_Inr split: if_splits prod.splits; blast)
qed

lemma room_loop_invariant:
  assumes "room_loop body n st = Inr st'" "P st"
    and "\<And>s s'. P s \<Longrightarrow> body s = Inr s' \<Longrightarrow> P s'"
  shows "P st'"
  using assms(1,2)
proof (induction n arbitrary: st)
  case 0
  then show ?case by simp
next
  case (Suc n)
  from Suc.prems(1) obtain s1 where b: "body st = Inr s1" and l: "room_loop body n s1 = Inr st'"
    by (auto simp: then_do_eq_Inr)
  from assms(3) [OF Suc.prems(2) b] have "P s1" .
  from Suc.IH [OF l this] show ?case .
qed

lemma intersects_commute: "intersects a b \<longleftrightarrow> intersects b a"
  by (auto simp: intersects_def)

lemma rooms_apart_snoc:
  assumes "rooms_apart rs" "\<not> list_ex (\<lambda>other_room. intersects new_room other_room) rs"
  shows "rooms_apart (rs @ [new_room])"
  unfolding rooms_apart_def
proof (intro allI impI)
  fix i j
  assume h: "i < length (rs @ [new_room]) \<and> j < length (rs @ [new_room]) \<and> i \<noteq> j"
  have new: "\<not> intersects new_room (rs ! k)" if "k < length rs" for k
    using assms(2) that by (auto simp: list_ex_iff)
  consider "i < length rs" "j < length rs" | "i = length rs" "j < length rs"
    | "i < length rs" "j = length rs"
    using h by fastforce
  then show "\<not> intersects ((rs @ [new_room]) ! i) ((rs @ [new_room]) ! j)"
  proof cases
    case 1
    then show ?thesis using assms(1) h by (simp add: rooms_apart_def nth_append)
  next
    case 2
    then show ?thesis using new [of j] by (simp add: nth_append)
  next
    case 3
    then show ?thesis using new [of i] intersects_commute [of "rs ! i" new_room]
      by (simp add: nth_append)
  qed
qed

lemma add_room_rooms_apart:
  assumes "add_room carve player_xy fl new_room (st\<lparr>rng_state := g\<rparr>) = Inr st'"
    and "rooms_apart (rooms st)"
  shows "rooms_apart (rooms st')"
  using add_room_Inr [OF assms(1)] assms(2) rooms_apart_snoc [of "rooms st" new_room]
  by auto

lemma add_room_stairs_invariant:
  assumes "add_room carve player_xy fl new_room (st\<lparr>rng_state := g\<rparr>) = Inr st'"
    and "stairs_invariant d0 st"
  shows "stairs_invariant d0 st'"
proof -
  from add_room_Inr [OF assms(1)]
  consider (skip) "list_ex (\<lambda>other_room. intersects new_room other_room) (rooms st)"
      "st' = st\<lparr>rng_state := g\<rparr>"
    | (accept) "rooms st' = rooms st @ [new_room]"
      "rooms st = [] \<longrightarrow> center_of_last_room st' = center_of_last_room st"
      "rooms st \<noteq> [] \<longrightarrow> center_of_last_room st' = center new_room"
      "downstairs_location (dungeon st') = center_of_last_room st'"
      "tile_at (dungeon st') (center_of_last_room st') = Some tile_down_stairs"
    by auto
  then show ?thesis
  proof cases
    case skip
    then show ?thesis using assms(2) by (simp add: stairs_invariant_def)
  next
    case accept
    show ?thesis
    proof (cases "rooms st = []")
      case True
      then show ?thesis using accept assms(2) by (simp add: stairs_invariant_def)
    next
      case False
      then have "2 \<le> length (rooms st')" using accept(1) by (cases "rooms st") simp_all
      then show ?thesis using accept False by (simp add: stairs_invariant_def)
    qed
  qed
qed

lemma add_room_rooms_nonempty:
  assumes "add_room carve player_xy fl new_room (st\<lparr>rng_state := g\<rparr>) = Inr st'"
  shows "rooms st' \<noteq> []"
  using add_room_Inr [OF assms] by (cases "rooms st") auto

lemma room_loop_rooms_nonempty:
  assumes "room_loop body n st = Inr st'" "0 < n"
    and "\<And>s s'. body s = Inr s' \<Longrightarrow> rooms s' \<noteq> []"
  shows "rooms st' \<noteq> []"
proof -
  obtain m where n: "n = Suc m" using assms(2) by (cases n) auto
  from assms(1) obtain s1 where b: "body st = Inr s1" and l: "room_loop body m s1 = Inr st'"
    unfolding n by (auto simp: then_do_eq_Inr)
  have "rooms s1 \<noteq> []" using assms(3) [OF b] .
  with l show ?thesis
    by (rule room_loop_invariant) (rule assms(3))
qed

lemma random_unit_zero: "random_unit (0 # g) = (0, g)"
  by (simp add: random_unit_def next_raw_def)

lemma floor_0_tables:
  "get_max_value_for_floor max_monsters_by_floor 0 = 0"
  "get_max_value_for_floor max_items_by_floor 0 = 0"
  "entity_weighted_chances enemy_chances 0 [] = [(orc, 80)]"
  "entity_weighted_chances item_chances 0 [] = [(health_potion, 35)]"
  by (simp_all add: get_max_value_for_floor_def max_monsters_by_floor_def max_items_by_floor_def
        enemy_chances_def item_chances_def)

lemma place_entities_floor_0:
  "place_entities room d 0 (a # b # g) = Inr (d, g)"
  by (simp add: place_entities_def lift_def floor_0_tables randint_def next_raw_def
        get_entities_at_random_def choices_single)

lemma tunnel_1_1_5_5:
  "tunnel_between (1, 1) (5, 5) (0 # g) =
     ([(1, 1), (2, 1), (3, 1), (4, 1), (5, 1), (5, 1), (5, 2), (5, 3), (5, 4), (5, 5)], g)"
proof -
  have a: "bresenham (1, 1) (5, 1) = [(1, 1), (2, 1), (3, 1), (4, 1), (5, 1)]"
    by (simp add: bresenham_def eval_nat_numeral)
  have b: "bresenham (5, 1) (5, 5) = [(5, 1), (5, 2), (5, 3), (5, 4), (5, 5)]"
    by (simp add: bresenham_def eval_nat_numeral)
  show ?thesis
    by (simp add: tunnel_between_def random_unit_zero tunnel_corner_def Let_def a b)
qed

lemma two_rooms_run:
  "\<exists>st. generate_dungeon_rooms 2 2 2 8 8 \<lparr>kind = player, ent_x = 0, ent_y = 0\<rparr> 0
            [0, 0, 0, 0, 0, 0, 0, 0, 4, 4, 0, 0, 0] = Inr st
      \<and> rooms st = [Rect 0 0 2 2, Rect 4 4 6 6]
      \<and> downstairs_location (dungeon st) = (5, 5)
      \<and> written (dungeon st) =
          [(1, 1), (0, 0), (5, 5), (1, 1), (2, 1), (3, 1), (4, 1), (5, 1),
           (5, 1), (5, 2), (5, 3), (5, 4), (5, 5), (5, 5)]"
proof -
  have n: "nat 2 = Suc (Suc 0)" by simp
  show ?thesis
    unfolding generate_dungeon_rooms_def n room_loop.simps
    by (simp add: initial_state_def GameMap_def generate_dungeon_step_def lift_def
          randint_def next_raw_def RectangularRoom_def add_room_def carve_slices_def
          set_tiles_slice_def rect_inner_def slice_indices_def slice_bound_def
          intersects_def int_half_def place_def place_entities_floor_0
          set_tile_def array_index_def tunnel_1_1_5_5 Let_def)
qed

lemma rooms_apart_loop:
  assumes "room_loop body n st = Inr st'" "rooms_apart (rooms st)"
    and "\<And>s s'. body s = Inr s' \<Longrightarrow>
           \<exists>carve player_xy fl new_room g.
             add_room carve player_xy fl new_room (s\<lparr>rng_state := g\<rparr>) = Inr s'"
  shows "rooms_apart (rooms st')"
proof (rule room_loop_invariant [where P = "\<lambda>s. rooms_apart (rooms s)", OF assms(1,2)])
  fix s s' assume p: "rooms_apart (rooms s)" and b: "body s = Inr s'"
  from assms(3) [OF b] obtain carve player_xy fl new_room g
    where "add_room carve player_xy fl new_room (s\<lparr>rng_state := g\<rparr>) = Inr s'" by blast
  from add_room_rooms_apart [OF this p] show "rooms_apart (rooms s')" .
qed

lemma rooms_apart_initial: "rooms_apart (rooms (initial_state W H p g))"
  by (simp add: rooms_apart_def initial_state_def)

text \<open>
  Claim C2. For every level that \<^verbatim>\<open>generate_dungeon\<close> or \<^verbatim>\<open>test_dungeon\<close> returns, whatever the
  arguments and the random source, no two distinct rooms of the list of accepted rooms
  intersect: \<^verbatim>\<open>intersects\<close> is false on every pair of different positions of the list. The
  returned level is the level of the loop's final state, which holds that list.
\<close>

theorem accepted_rooms_never_intersect:
  "(\<forall>st. generate_dungeon_rooms max_rooms room_min_size room_max_size map_width map_height
            the_player current_floor g = Inr st \<longrightarrow>
        generate_dungeon max_rooms room_min_size room_max_size map_width map_height
            the_player current_floor g = Inr (dungeon st)
      \<and> (\<forall>i j. i < length (rooms st) \<and> j < length (rooms st) \<and> i \<noteq> j \<longrightarrow>
            \<not> intersects (rooms st ! i) (rooms st ! j)))
   \<and> (\<forall>st. test_dungeon_rooms max_rooms room_min_size room_max_size map_width map_height
            the_player current_floor g = Inr st \<longrightarrow>
        test_dungeon max_rooms room_min_size room_max_size map_width map_height
            the_player current_floor g = Inr (dungeon st)
      \<and> (\<forall>i j. i < length (rooms st) \<and> j < length (rooms st) \<and> i \<noteq> j \<longrightarrow>
            \<not> intersects (rooms st ! i) (rooms st ! j)))
   \<and> (\<forall>d. generate_dungeon max_rooms room_min_size room_max_size map_width map_height
            the_player current_floor g = Inr d \<longrightarrow>
        (\<exists>st. generate_dungeon_rooms max_rooms room_min_size room_max_size map_width map_height
            the_player current_floor g = Inr st \<and> d = dungeon st))
   \<and> (\<forall>d. test_dungeon max_rooms room_min_size room_max_size map_width map_height
            the_player current_floor g = Inr d \<longrightarrow>
        (\<exists>st. test_dungeon_rooms max_rooms room_min_size room_max_size map_width map_height
            the_player current_floor g = Inr st \<and> d = dungeon st))"
proof (intro conjI allI impI)
  fix st
  assume r: "generate_dungeon_rooms max_rooms room_min_size room_max_size map_width map_height
            the_player current_floor g = Inr st"
  show "generate_dungeon max_rooms room_min_size room_max_size map_width map_height
            the_player current_floor g = Inr (dungeon st)"
    by (simp add: generate_dungeon_def r)
  have "rooms_apart (rooms st)"
    using r unfolding generate_dungeon_rooms_def
    by (rule rooms_apart_loop) (rule rooms_apart_initial, rule generate_dungeon_step_Inr)
  then show "\<And>i j. i < length (rooms st) \<and> j < length (rooms st) \<and> i \<noteq> j \<Longrightarrow>
            \<not> intersects (rooms st ! i) (rooms st ! j)"
    by (simp add: rooms_apart_def)
next
  fix st
  assume r: "test_dungeon_rooms max_rooms room_min_size room_max_size map_width map_height
            the_player current_floor g = Inr st"
  show "test_dungeon max_rooms room_min_size room_max_size map_width map_height
            the_player current_floor g = Inr (dungeon st)"
    by (simp add: test_dungeon_def r)
  have "rooms_apart (rooms st)"
    using r unfolding test_dungeon_rooms_def
    by (rule rooms_apart_loop) (rule rooms_apart_initial, rule test_dungeon_step_Inr)
  then show "\<And>i j. i < length (rooms st) \<and> j < length (rooms st) \<and> i \<noteq> j \<Longrightarrow>
            \<not> intersects (rooms st ! i) (rooms st ! j)"
    by (simp add: rooms_apart_def)
next
  fix d
  assume "generate_dungeon max_rooms room_min_size room_max_size map_width map_height
            the_player current_floor g = Inr d"
  then show "\<exists>st. generate_dungeon_rooms max_rooms room_min_size room_max_size map_width map_height
            the_player current_floor g = Inr st \<and> d = dungeon st"
    by (auto simp: generate_dungeon_def then_do_eq_Inr)
next
  fix d
  assume "test_dungeon max_rooms room_min_size room_max_size map_width map_height
            the_player current_floor g = Inr d"
  then show "\<exists>st. test_dungeon_rooms max_rooms room_min_size room_max_size map_width map_height
            the_player current_floor g = Inr st \<and> d = dungeon st"
    by (auto simp: test_dungeon_def then_do_eq_Inr)
qed

lemma circle_inner_radius_1: "circle_inner cx cy 1 = [(cx, cy)]"
proof -
  have u: "[- 1..1] = [- 1, 0, (1::int)]" by (simp add: upto_rec1)
  have s: "sqrt (real_of_int n) < 1 \<longleftrightarrow> n < 1" if "0 \<le> n" for n
    using sqrt_less_int [OF that, of 1] by simp
  have p: "(0::int) \<le> dx ^ 2 + dy ^ 2" for dx dy by simp
  show ?thesis
    unfolding circle_inner_def u by (simp add: s)
qed

lemma random_unit_three_quarters: "random_unit (6755399441055744 # g) = (3 / 4, g)"
  by (simp add: random_unit_def next_raw_def)

lemma rect_and_circle_run:
  "\<exists>st. test_dungeon_rooms 2 2 2 8 8 \<lparr>kind = player, ent_x = 0, ent_y = 0\<rparr> 0
            [0, 0, 0, 0, 0, 0, 0, 6755399441055744, 0, 4, 4, 0, 0, 0] = Inr st
      \<and> rooms st = [Rect 0 0 2 2, Circ 5 5 1]
      \<and> written (dungeon st) =
          [(1, 1), (0, 0), (5, 5), (1, 1), (2, 1), (3, 1), (4, 1), (5, 1),
           (5, 1), (5, 2), (5, 3), (5, 4), (5, 5), (5, 5)]"
proof -
  have n: "nat 2 = Suc (Suc 0)" by simp
  show ?thesis
    unfolding test_dungeon_rooms_def n room_loop.simps
    by (simp add: initial_state_def GameMap_def test_dungeon_step_def lift_def
          random_unit_zero random_unit_three_quarters
          randint_def next_raw_def RectangularRoom_def CircularRoom_def add_room_def
          carve_inner_def circle_inner_radius_1
          set_tiles_slice_def rect_inner_def slice_indices_def slice_bound_def
          intersects_def int_half_def place_def place_entities_floor_0
          set_tile_def array_index_def tunnel_1_1_5_5 Let_def)
qed

text \<open>
  Two runs on an 8 by 8 map with two iterations each: \<^verbatim>\<open>generate_dungeon\<close> accepts two
  rectangles, \<^verbatim>\<open>test_dungeon\<close> a rectangle and a circle.
\<close>

theorem accepted_rooms_of_two_runs:
  "(\<exists>st. generate_dungeon_rooms 2 2 2 8 8 \<lparr>kind = player, ent_x = 0, ent_y = 0\<rparr> 0
            [0, 0, 0, 0, 0, 0, 0, 0, 4, 4, 0, 0, 0] = Inr st
      \<and> rooms st = [Rect 0 0 2 2, Rect 4 4 6 6])
   \<and> \<not> intersects (Rect 0 0 2 2) (Rect 4 4 6 6)
   \<and> \<not> intersects (Rect 4 4 6 6) (Rect 0 0 2 2)
   \<and> (\<exists>st. test_dungeon_rooms 2 2 2 8 8 \<lparr>kind = player, ent_x = 0, ent_y = 0\<rparr> 0
            [0, 0, 0, 0, 0, 0, 0, 6755399441055744, 0, 4, 4, 0, 0, 0] = Inr st
      \<and> rooms st = [Rect 0 0 2 2, Circ 5 5 1])
   \<and> \<not> intersects (Rect 0 0 2 2) (Circ 5 5 1)
   \<and> \<not> intersects (Circ 5 5 1) (Rect 0 0 2 2)"
proof -
  let ?p = "\<lparr>kind = player, ent_x = 0, ent_y = 0\<rparr>"
  let ?g = "[0, 0, 0, 0, 0, 0, 0, 0, 4, 4, 0, 0, 0] :: rng"
  let ?h = "[0, 0, 0, 0, 0, 0, 0, 6755399441055744, 0, 4, 4, 0, 0, 0] :: rng"
  from two_rooms_run obtain s where
    s: "generate_dungeon_rooms 2 2 2 8 8 ?p 0 ?g = Inr s" "rooms s = [Rect 0 0 2 2, Rect 4 4 6 6]"
    by blast
  from rect_and_circle_run obtain t where
    t: "test_dungeon_rooms 2 2 2 8 8 ?p 0 ?h = Inr t" "rooms t = [Rect 0 0 2 2, Circ 5 5 1]"
    by blast
  have a: "\<forall>i j. i < length (rooms s) \<and> j < length (rooms s) \<and> i \<noteq> j \<longrightarrow>
            \<not> intersects (rooms s ! i) (rooms s ! j)"
    using accepted_rooms_never_intersect [of 2 2 2 8 8 ?p 0 ?g] s(1) by blast
  have b: "\<forall>i j. i < length (rooms t) \<and> j < length (rooms t) \<and> i \<noteq> j \<longrightarrow>
            \<not> intersects (rooms t ! i) (rooms t ! j)"
    using accepted_rooms_never_intersect [of 2 2 2 8 8 ?p 0 ?h] t(1) by blast
  have "\<not> intersects (Rect 0 0 2 2) (Rect 4 4 6 6)" using a [rule_format, of 0 1] s(2) by simp
  moreover have "\<not> intersects (Rect 4 4 6 6) (Rect 0 0 2 2)" using a [rule_format, of 1 0] s(2) by simp
  moreover have "\<not> intersects (Rect 0 0 2 2) (Circ 5 5 1)" using b [rule_format, of 0 1] t(2) by simp
  moreover have "\<not> intersects (Circ 5 5 1) (Rect 0 0 2 2)" using b [rule_format, of 1 0] t(2) by simp
  ultimately show ?thesis using s t by blast
qed

lemma stairs_invariant_initial:
  "stairs_invariant (GameMap W H [p]) (initial_state W H p g)"
  by (simp add: stairs_invariant_def initial_state_def)

lemma stairs_invariant_loop:
  assumes "room_loop body n st = Inr st'" "stairs_invariant d0 st"
    and "\<And>s s'. body s = Inr s' \<Longrightarrow>
           \<exists>carve player_xy fl new_room g.
             add_room carve player_xy fl new_room (s\<lparr>rng_state := g\<rparr>) = Inr s'"
  shows "stairs_invariant d0 st'"
proof (rule room_loop_invariant [where P = "stairs_invariant d0", OF assms(1,2)])
  fix s s' assume p: "stairs_invariant d0 s" and b: "body s = Inr s'"
  from assms(3) [OF b] obtain carve player_xy fl new_room g
    where "add_room carve player_xy fl new_room (s\<lparr>rng_state := g\<rparr>) = Inr s'" by blast
  from add_room_stairs_invariant [OF this p] show "stairs_invariant d0 s'" .
qed

lemma generate_dungeon_step_rooms_nonempty:
  "generate_dungeon_step lo hi fl s = Inr s' \<Longrightarrow> rooms s' \<noteq> []"
  using generate_dungeon_step_Inr add_room_rooms_nonempty by blast

text \<open>
  Claim C3. For every run of \<^verbatim>\<open>generate_dungeon\<close> that returns: with two or more accepted
  rooms, \<^verbatim>\<open>downstairs_location\<close> is the centre of the last accepted room and the tile there
  is the down-stair; with exactly one accepted room, \<^verbatim>\<open>downstairs_location\<close> is \<open>(0, 0)\<close>
  (and the down-stair is there); no room is accepted exactly when \<^verbatim>\<open>max_rooms\<close> is not
  positive, and then the level returned is the new level as constructed: the controlled
  agent is its only entity, every tile is a wall, and nothing was stored.
\<close>

theorem generate_dungeon_downstairs:
  "(\<forall>st. generate_dungeon_rooms max_rooms room_min_size room_max_size map_width map_height
            the_player current_floor g = Inr st \<longrightarrow>
        generate_dungeon max_rooms room_min_size room_max_size map_width map_height
            the_player current_floor g = Inr (dungeon st)
      \<and> (2 \<le> length (rooms st) \<longrightarrow>
            downstairs_location (dungeon st) = center (last (rooms st))
          \<and> tile_at (dungeon st) (center (last (rooms st))) = Some tile_down_stairs)
      \<and> (length (rooms st) = 1 \<longrightarrow>
            downstairs_location (dungeon st) = (0, 0)
          \<and> tile_at (dungeon st) (0, 0) = Some tile_down_stairs)
      \<and> (rooms st = [] \<longleftrightarrow> max_rooms \<le> 0))
   \<and> (max_rooms \<le> 0 \<longrightarrow>
        generate_dungeon max_rooms room_min_size room_max_size map_width map_height
            the_player current_floor g = Inr (GameMap map_width map_height [the_player]))
   \<and> entities (GameMap map_width map_height [the_player]) = [the_player]
   \<and> (\<forall>xy. tiles (GameMap map_width map_height [the_player]) xy = tile_wall)
   \<and> written (GameMap map_width map_height [the_player]) = []"
proof (intro conjI allI impI)
  fix st
  assume r: "generate_dungeon_rooms max_rooms room_min_size room_max_size map_width map_height
            the_player current_floor g = Inr st"
  show "generate_dungeon max_rooms room_min_size room_max_size map_width map_height
            the_player current_floor g = Inr (dungeon st)"
    by (simp add: generate_dungeon_def r)
  have inv: "stairs_invariant (GameMap map_width map_height [the_player]) st"
    using r unfolding generate_dungeon_rooms_def
    by (rule stairs_invariant_loop) (rule stairs_invariant_initial, rule generate_dungeon_step_Inr)
  {
    assume "2 \<le> length (rooms st)"
    then have c: "center_of_last_room st = center (last (rooms st))" and ne: "rooms st \<noteq> []"
      using inv by (auto simp: stairs_invariant_def)
    show "downstairs_location (dungeon st) = center (last (rooms st))"
      using inv ne c by (simp add: stairs_invariant_def)
    show "tile_at (dungeon st) (center (last (rooms st))) = Some tile_down_stairs"
      using inv ne c by (simp add: stairs_invariant_def)
  }
  {
    assume "length (rooms st) = 1"
    then have c: "center_of_last_room st = (0, 0)" and ne: "rooms st \<noteq> []"
      using inv by (auto simp: stairs_invariant_def)
    show "downstairs_location (dungeon st) = (0, 0)"
      using inv ne c by (simp add: stairs_invariant_def)
    show "tile_at (dungeon st) (0, 0) = Some tile_down_stairs"
      using inv ne c by (simp add: stairs_invariant_def)
  }
  show "rooms st = [] \<longleftrightarrow> max_rooms \<le> 0"
  proof (cases "max_rooms \<le> 0")
    case True
    then have "st = initial_state map_width map_height the_player g"
      using r by (simp add: generate_dungeon_rooms_def)
    then show ?thesis using True by (simp add: initial_state_def)
  next
    case False
    then have "0 < nat max_rooms" by simp
    from room_loop_rooms_nonempty [OF r [unfolded generate_dungeon_rooms_def] this
        generate_dungeon_step_rooms_nonempty]
    show ?thesis using False by simp
  qed
next
  assume "max_rooms \<le> 0"
  then show "generate_dungeon max_rooms room_min_size room_max_size map_width map_height
            the_player current_floor g = Inr (GameMap map_width map_height [the_player])"
    by (simp add: generate_dungeon_def generate_dungeon_rooms_def initial_state_def)
next
  show "entities (GameMap map_width map_height [the_player]) = [the_player]"
    by (simp add: GameMap_def)
  show "\<And>xy. tiles (GameMap map_width map_height [the_player]) xy = tile_wall"
    by (simp add: GameMap_def)
  show "written (GameMap map_width map_height [the_player]) = []"
    by (simp add: GameMap_def)
qed

lemma one_room_run:
  "\<exists>st. generate_dungeon_rooms 1 2 2 8 8 \<lparr>kind = player, ent_x = 0, ent_y = 0\<rparr> 0
            [0, 0, 3, 3, 0, 0] = Inr st
      \<and> rooms st = [Rect 3 3 5 5]"
proof -
  have n: "nat 1 = Suc 0" by simp
  show ?thesis
    unfolding generate_dungeon_rooms_def n room_loop.simps
    by (simp add: initial_state_def GameMap_def generate_dungeon_step_def lift_def
          randint_def next_raw_def RectangularRoom_def add_room_def carve_slices_def
          set_tiles_slice_def rect_inner_def slice_indices_def slice_bound_def
          intersects_def int_half_def place_def place_entities_floor_0
          set_tile_def array_index_def Let_def)
qed

text \<open>
  Runs of \<^verbatim>\<open>generate_dungeon\<close> on an 8 by 8 map with two rooms, with one room (whose centre
  is \<open>(4, 4)\<close>, not the origin) and with no iteration.
\<close>

theorem generate_dungeon_downstairs_runs:
  "(\<exists>st. generate_dungeon_rooms 2 2 2 8 8 \<lparr>kind = player, ent_x = 0, ent_y = 0\<rparr> 0
            [0, 0, 0, 0, 0, 0, 0, 0, 4, 4, 0, 0, 0] = Inr st
      \<and> rooms st = [Rect 0 0 2 2, Rect 4 4 6 6]
      \<and> downstairs_location (dungeon st) = (5, 5)
      \<and> tile_at (dungeon st) (5, 5) = Some tile_down_stairs)
   \<and> (\<exists>st. generate_dungeon_rooms 1 2 2 8 8 \<lparr>kind = player, ent_x = 0, ent_y = 0\<rparr> 0
            [0, 0, 3, 3, 0, 0] = Inr st
      \<and> rooms st = [Rect 3 3 5 5]
      \<and> center (Rect 3 3 5 5) = (4, 4)
      \<and> downstairs_location (dungeon st) = (0, 0)
      \<and> tile_at (dungeon st) (0, 0) = Some tile_down_stairs)
   \<and> generate_dungeon 0 2 2 8 8 \<lparr>kind = player, ent_x = 0, ent_y = 0\<rparr> 0 []
       = Inr (GameMap 8 8 [\<lparr>kind = player, ent_x = 0, ent_y = 0\<rparr>])"
proof -
  let ?p = "\<lparr>kind = player, ent_x = 0, ent_y = 0\<rparr>"
  let ?g = "[0, 0, 0, 0, 0, 0, 0, 0, 4, 4, 0, 0, 0] :: rng"
  let ?h = "[0, 0, 3, 3, 0, 0] :: rng"
  from two_rooms_run obtain s where
    s: "generate_dungeon_rooms 2 2 2 8 8 ?p 0 ?g = Inr s" "rooms s = [Rect 0 0 2 2, Rect 4 4 6 6]"
    by blast
  from one_room_run obtain t where
    t: "generate_dungeon_rooms 1 2 2 8 8 ?p 0 ?h = Inr t" "rooms t = [Rect 3 3 5 5]"
    by blast
  have c: "center (last (rooms s)) = (5, 5)" by (simp add: s(2) int_half_def)
  have "downstairs_location (dungeon s) = (5, 5) \<and> tile_at (dungeon s) (5, 5) = Some tile_down_stairs"
    using generate_dungeon_downstairs [of 2 2 2 8 8 ?p 0 ?g] s c by simp
  moreover have "downstairs_location (dungeon t) = (0, 0)
      \<and> tile_at (dungeon t) (0, 0) = Some tile_down_stairs"
    using generate_dungeon_downstairs [of 1 2 2 8 8 ?p 0 ?h] t by simp
  moreover have "center (Rect 3 3 5 5) = (4, 4)" by (simp add: int_half_def)
  moreover have "generate_dungeon 0 2 2 8 8 ?p 0 [] = Inr (GameMap 8 8 [?p])"
    using generate_dungeon_downstairs [of 0 2 2 8 8 ?p 0 "[]"] by simp
  ultimately show ?thesis using s t by blast
qed

lemma point_ok_in_bounds: "width d = W \<Longrightarrow> height d = H \<Longrightarrow> in_bounds d p \<longleftrightarrow> point_ok W H p"
  by (simp add: in_bounds_def point_ok_def)

lemma map_ok_entities [simp]: "map_ok W H (d\<lparr>entities := es\<rparr>) = map_ok W H d"
  by (simp add: map_ok_def)

lemma map_ok_downstairs [simp]: "map_ok W H (d\<lparr>downstairs_location := c\<rparr>) = map_ok W H d"
  by (simp add: map_ok_def)

lemma map_ok_place [simp]: "map_ok W H (place xy d) = map_ok W H d"
  by (simp add: place_def)

lemma map_ok_set_tile:
  assumes "map_ok W H d" "point_ok W H xy"
  shows "\<exists>d'. set_tile d xy t = Inr d' \<and> map_ok W H d'"
proof -
  have ib: "in_bounds d xy" using assms by (simp add: map_ok_def in_bounds_def point_ok_def)
  show ?thesis
    using assms by (simp add: set_tile_in_bounds [OF ib] map_ok_def)
qed

lemma map_ok_set_tiles:
  assumes "map_ok W H d" "\<forall>p \<in> set path. point_ok W H p"
  shows "\<exists>d'. set_tiles d path t = Inr d' \<and> map_ok W H d'"
proof -
  have "\<forall>p \<in> set path. in_bounds d p"
    using assms by (simp add: map_ok_def in_bounds_def point_ok_def)
  from set_tiles_in_bounds [OF this, of t] obtain d' where
    d: "set_tiles d path t = Inr d'" "width d' = width d" "height d' = height d"
       "written d' = written d @ path" by blast
  have "map_ok W H d'" using assms d by (auto simp: map_ok_def)
  with d(1) show ?thesis by blast
qed

lemma map_ok_set_tiles_slice:
  assumes "map_ok W H d" "0 \<le> W" "0 \<le> H"
  shows "map_ok W H (set_tiles_slice d sl t)"
proof -
  have w: "0 \<le> width d" "0 \<le> height d" using assms by (simp_all add: map_ok_def)
  from set_tiles_slice_written [OF w, of sl t] obtain cells where
    c: "written (set_tiles_slice d sl t) = written d @ cells" "\<forall>p \<in> set cells. in_bounds d p"
    by blast
  have "\<forall>p \<in> set cells. point_ok W H p"
    using c(2) assms(1) by (simp add: map_ok_def in_bounds_def point_ok_def)
  then show ?thesis
    using assms(1) c(1) by (auto simp: map_ok_def set_tiles_slice_props)
qed

lemma carve_ok:
  assumes "map_ok W H d" "room_fits W H r" "carve = carve_slices \<or> carve = carve_inner"
  shows "\<exists>d1. carve d r = Inr d1 \<and> map_ok W H d1"
proof -
  have pos: "0 \<le> W" "0 \<le> H" using assms(2) by (auto simp: room_fits_def point_ok_def)
  have sl: "map_ok W H (set_tiles_slice d (rect_inner r) tile_floor)"
    using map_ok_set_tiles_slice [OF assms(1) pos] .
  show ?thesis
  proof (cases "carve = carve_slices")
    case True
    then show ?thesis using sl by (simp add: carve_slices_def)
  next
    case False
    then have c: "carve = carve_inner" using assms(3) by simp
    show ?thesis
    proof (cases r)
      case (Rect a b c' e)
      then show ?thesis using sl c by (simp add: carve_inner_def)
    next
      case (Circ x y rad)
      then have "\<forall>p \<in> set (inner r). point_ok W H p" using assms(2) by (simp add: room_fits_def)
      from map_ok_set_tiles [OF assms(1) this] show ?thesis using c Circ by (simp add: carve_inner_def)
    next
      case (Ring x y rad ir)
      then have "\<forall>p \<in> set (inner r). point_ok W H p" using assms(2) by (simp add: room_fits_def)
      from map_ok_set_tiles [OF assms(1) this] show ?thesis using c Ring by (simp add: carve_inner_def)
    qed
  qed
qed

lemma place_entities_outcome:
  assumes "map_ok W H d"
  shows "case place_entities r d fl g of
           Inr (d', g') \<Rightarrow> map_ok W H d'
         | Inl ed \<Rightarrow> good_failure W H ed"
proof (cases "place_entities r d fl g")
  case (Inl ed)
  obtain e d' where ed: "ed = (e, d')" by (cases ed)
  from place_entities_Inl [OF Inl [unfolded ed]] assms show ?thesis
    by (auto simp: Inl ed good_failure_def)
next
  case (Inr v)
  obtain d' g' where v: "v = (d', g')" by (cases v)
  from place_entities_Inr [OF Inr [unfolded v]] assms show ?thesis
    by (auto simp: Inr v)
qed

lemma bounds_invariant_rng [simp]:
  "bounds_invariant W H (st\<lparr>rng_state := g\<rparr>) = bounds_invariant W H st"
  by (simp add: bounds_invariant_def)

lemma finish_room_outcome:
  assumes d2: "map_ok W H d2" and c: "point_ok W H c" and n: "point_ok W H (center new_room)"
  shows "good_outcome W H
           (then_do (place_entities new_room d2 fl g1) (\<lambda>(d3, g2).
            then_do (set_tile d3 c tile_down_stairs) (\<lambda>d4.
              Inr \<lparr>dungeon = d4\<lparr>downstairs_location := c\<rparr>, rooms = rs @ [new_room],
                   center_of_last_room = c, rng_state = g2\<rparr>)))"
proof (cases "place_entities new_room d2 fl g1")
  case (Inl ed)
  then show ?thesis
    using place_entities_outcome [OF d2, of new_room fl g1] by (simp add: good_outcome_def)
next
  case (Inr v)
  obtain d3 g2 where v: "v = (d3, g2)" by (cases v)
  have "map_ok W H d3"
    using place_entities_outcome [OF d2, of new_room fl g1] by (simp add: Inr v)
  from map_ok_set_tile [OF this c, of tile_down_stairs] obtain d4 where
    d4: "set_tile d3 c tile_down_stairs = Inr d4" "map_ok W H d4" by blast
  show ?thesis
    using d4 c n by (simp add: Inr v good_outcome_def bounds_invariant_def)
qed

lemma add_room_outcome:
  assumes inv: "bounds_invariant W H st" and fits: "room_fits W H new_room"
    and carve: "carve = carve_slices \<or> carve = carve_inner"
  shows "good_outcome W H (add_room carve player_xy fl new_room st)"
proof (cases "list_ex (\<lambda>other_room. intersects new_room other_room) (rooms st)")
  case True
  then show ?thesis using inv by (simp add: add_room_skip good_outcome_def)
next
  case False
  have d: "map_ok W H (dungeon st)" using inv by (simp add: bounds_invariant_def)
  from carve_ok [OF d fits carve] obtain d1 where
    d1: "carve (dungeon st) new_room = Inr d1" "map_ok W H d1" by blast
  have n: "point_ok W H (center new_room)" using fits by (simp add: room_fits_def)
  show ?thesis
  proof (cases "rooms st = []")
    case True
    have "point_ok W H (0, 0)" using n by (auto simp: point_ok_def)
    then have c: "point_ok W H (center_of_last_room st)"
      using inv by (auto simp: bounds_invariant_def)
    have p: "map_ok W H (place (player_xy new_room) d1)" using d1(2) by simp
    show ?thesis
      using finish_room_outcome [OF p c n, of fl "rng_state st" "[]"]
      by (simp add: add_room_first [OF True] d1(1) True)
  next
    case ne: False
    let ?t = "tunnel_between (center (last (rooms st))) (center new_room) (rng_state st)"
    have l: "point_ok W H (center (last (rooms st)))"
      using inv ne by (simp add: bounds_invariant_def)
    have "\<forall>p \<in> set (fst ?t). point_ok W H p"
    proof
      fix p assume "p \<in> set (fst ?t)"
      from tunnel_between_points [OF this] l n show "point_ok W H p"
        by (auto simp: point_ok_def)
    qed
    from map_ok_set_tiles [OF d1(2) this, of tile_floor] obtain d2 where
      d2: "set_tiles d1 (fst ?t) tile_floor = Inr d2" "map_ok W H d2" by blast
    show ?thesis
      using finish_room_outcome [OF d2(2) n n, of fl "snd ?t" "rooms st"]
      by (simp add: add_room_next [OF ne False] d1(1) d2(1))
  qed
qed

lemma int_half_between:
  assumes "0 \<le> a" "a \<le> b"
  shows "a \<le> int_half (a + b) \<and> int_half (a + b) \<le> b"
  using assms by (simp add: int_half_def) linarith

lemma rectangle_fits:
  assumes "0 \<le> w" "0 \<le> h" "0 \<le> x" "x \<le> W - w - 1" "0 \<le> y" "y \<le> H - h - 1"
  shows "room_fits W H (RectangularRoom x y w h)"
proof -
  have "x \<le> int_half (x + (x + w)) \<and> int_half (x + (x + w)) \<le> x + w"
    using assms by (intro int_half_between) simp_all
  moreover have "y \<le> int_half (y + (y + h)) \<and> int_half (y + (y + h)) \<le> y + h"
    using assms by (intro int_half_between) simp_all
  ultimately show ?thesis
    using assms by (simp add: room_fits_def RectangularRoom_def point_ok_def)
qed

lemma square_sum_strict:
  fixes a b r :: int
  assumes "a ^ 2 + b ^ 2 < r * r" "0 < r"
  shows "\<bar>a\<bar> < r"
proof (rule ccontr)
  assume "\<not> \<bar>a\<bar> < r"
  then have "\<bar>r\<bar> \<le> \<bar>a\<bar>" using assms(2) by simp
  then have "r ^ 2 \<le> a ^ 2" by (simp only: abs_le_square_iff)
  moreover have "0 \<le> b ^ 2" by (rule zero_le_power2)
  ultimately show False using assms(1) unfolding power2_eq_square by linarith
qed

lemma circle_inner_inside:
  assumes "p \<in> set (circle_inner x y r)"
  shows "x - r < fst p \<and> fst p < x + r \<and> y - r < snd p \<and> snd p < y + r"
proof -
  obtain px py where p: "p = (px, py)" by (cases p)
  from assms have r: "0 < r" and s: "(px - x) ^ 2 + (py - y) ^ 2 < r * r"
    by (simp_all add: p in_circle_inner)
  have s': "(py - y) ^ 2 + (px - x) ^ 2 < r * r" using s by (simp add: add.commute)
  from square_sum_strict [OF s r] square_sum_strict [OF s' r] show ?thesis
    by (simp add: p abs_less_iff)
qed

lemma circle_points_fit:
  assumes "r \<le> x" "x \<le> W - r" "r \<le> y" "y \<le> H - r" "p \<in> set (circle_inner x y r)"
  shows "point_ok W H p"
  using circle_inner_inside [OF assms(5)] assms(1-4) by (simp add: point_ok_def)

lemma circle_fits:
  assumes "1 \<le> r" "r \<le> x" "x \<le> W - r" "r \<le> y" "y \<le> H - r"
  shows "room_fits W H (CircularRoom x y r)"
  using assms circle_points_fit [of r x W y H]
  by (auto simp: room_fits_def CircularRoom_def point_ok_def)

lemma ring_fits:
  assumes "1 \<le> r" "r \<le> x" "x \<le> W - r" "r \<le> y" "y \<le> H - r"
  shows "room_fits W H (RingRoom x y r (Some ir))"
  using assms circle_points_fit [of r x W y H]
  by (auto simp: room_fits_def RingRoom_def ring_inner_def point_ok_def)

lemma draw_outcome:
  assumes "map_ok W H d"
    and "\<And>v g'. a \<le> v \<Longrightarrow> v \<le> b \<Longrightarrow> good_outcome W H (f (v, g'))"
  shows "good_outcome W H (then_do (lift d (randint a b g)) f)"
proof (cases "randint a b g")
  case (Inl e)
  then have "e = ValueError" using randint_fails by blast
  then show ?thesis using assms(1) by (simp add: Inl lift_def good_outcome_def good_failure_def)
next
  case (Inr vg)
  obtain v g' where vg: "vg = (v, g')" by (cases vg)
  from randint_range [OF Inr [unfolded vg]] have "a \<le> v" "v \<le> b" by simp_all
  from assms(2) [OF this] show ?thesis by (simp add: Inr vg lift_def)
qed

lemma draw_rectangle_outcome:
  assumes inv: "bounds_invariant W H st" and lo: "0 \<le> lo"
    and carve: "carve = carve_slices \<or> carve = carve_inner"
  shows "good_outcome W H
     (then_do (lift (dungeon st) (randint lo hi g0))
       (\<lambda>(room_width, g1).
     then_do (lift (dungeon st) (randint lo hi g1))
       (\<lambda>(room_height, g2).
     then_do (lift (dungeon st) (randint 0 (width (dungeon st) - room_width - 1) g2))
       (\<lambda>(x, g3).
     then_do (lift (dungeon st) (randint 0 (height (dungeon st) - room_height - 1) g3))
       (\<lambda>(y, g4).
     add_room carve player_xy fl
       (RectangularRoom x y room_width room_height) (st\<lparr>rng_state := g4\<rparr>))))))"
proof -
  have d: "map_ok W H (dungeon st)" and w: "width (dungeon st) = W" and h: "height (dungeon st) = H"
    using inv by (simp_all add: bounds_invariant_def map_ok_def)
  show ?thesis
  proof (rule draw_outcome [OF d])
    fix rw g1 assume rw: "lo \<le> rw" "rw \<le> hi"
    show "good_outcome W H
       ((\<lambda>(room_width, g1).
     then_do (lift (dungeon st) (randint lo hi g1))
       (\<lambda>(room_height, g2).
     then_do (lift (dungeon st) (randint 0 (width (dungeon st) - room_width - 1) g2))
       (\<lambda>(x, g3).
     then_do (lift (dungeon st) (randint 0 (height (dungeon st) - room_height - 1) g3))
       (\<lambda>(y, g4).
     add_room carve player_xy fl
       (RectangularRoom x y room_width room_height) (st\<lparr>rng_state := g4\<rparr>))))) (rw, g1))"
      unfolding prod.case
    proof (rule draw_outcome [OF d])
      fix rh g2 assume rh: "lo \<le> rh" "rh \<le> hi"
      show "good_outcome W H
         ((\<lambda>(room_height, g2).
       then_do (lift (dungeon st) (randint 0 (width (dungeon st) - rw - 1) g2))
         (\<lambda>(x, g3).
       then_do (lift (dungeon st) (randint 0 (height (dungeon st) - room_height - 1) g3))
         (\<lambda>(y, g4).
       add_room carve player_xy fl
         (RectangularRoom x y rw room_height) (st\<lparr>rng_state := g4\<rparr>)))) (rh, g2))"
        unfolding prod.case
      proof (rule draw_outcome [OF d])
        fix x g3 assume x: "0 \<le> x" "x \<le> width (dungeon st) - rw - 1"
        show "good_outcome W H
           ((\<lambda>(x, g3).
         then_do (lift (dungeon st) (randint 0 (height (dungeon st) - rh - 1) g3))
           (\<lambda>(y, g4).
         add_room carve player_xy fl
           (RectangularRoom x y rw rh) (st\<lparr>rng_state := g4\<rparr>))) (x, g3))"
          unfolding prod.case
        proof (rule draw_outcome [OF d])
          fix y g4 assume y: "0 \<le> y" "y \<le> height (dungeon st) - rh - 1"
          have fits: "room_fits W H (RectangularRoom x y rw rh)"
            using rw rh x y lo w h by (intro rectangle_fits) simp_all
          show "good_outcome W H
             ((\<lambda>(y, g4).
           add_room carve player_xy fl
             (RectangularRoom x y rw rh) (st\<lparr>rng_state := g4\<rparr>)) (y, g4))"
            unfolding prod.case
            by (rule add_room_outcome [OF _ fits carve]) (simp add: inv)
        qed
      qed
    qed
  qed
qed

lemma generate_dungeon_step_outcome:
  assumes "bounds_invariant W H st" "0 \<le> lo"
  shows "good_outcome W H (generate_dungeon_step lo hi fl st)"
  unfolding generate_dungeon_step_def
  by (rule draw_rectangle_outcome [OF assms]) simp

lemma draw_circle_outcome:
  assumes inv: "bounds_invariant W H st" and lo: "2 \<le> lo"
  shows "good_outcome W H
     (then_do (lift (dungeon st) (randint (lo div 2) (hi div 2) g0))
          (\<lambda>(radius, g1).
        then_do (lift (dungeon st) (randint radius (width (dungeon st) - radius) g1))
          (\<lambda>(x, g2).
        then_do (lift (dungeon st) (randint radius (height (dungeon st) - radius) g2))
          (\<lambda>(y, g3).
        add_room carve_inner place_player_coordinate fl
          (CircularRoom x y radius) (st\<lparr>rng_state := g3\<rparr>)))))"
proof -
  have d: "map_ok W H (dungeon st)" and w: "width (dungeon st) = W" and h: "height (dungeon st) = H"
    using inv by (simp_all add: bounds_invariant_def map_ok_def)
  show ?thesis
  proof (rule draw_outcome [OF d])
    fix r g1 assume r: "lo div 2 \<le> r" "r \<le> hi div 2"
    have r1: "1 \<le> r" using r lo by linarith
    show "good_outcome W H
       ((\<lambda>(radius, g1).
        then_do (lift (dungeon st) (randint radius (width (dungeon st) - radius) g1))
          (\<lambda>(x, g2).
        then_do (lift (dungeon st) (randint radius (height (dungeon st) - radius) g2))
          (\<lambda>(y, g3).
        add_room carve_inner place_player_coordinate fl
          (CircularRoom x y radius) (st\<lparr>rng_state := g3\<rparr>)))) (r, g1))"
      unfolding prod.case
    proof (rule draw_outcome [OF d])
      fix x g2 assume x: "r \<le> x" "x \<le> width (dungeon st) - r"
      show "good_outcome W H
         ((\<lambda>(x, g2).
          then_do (lift (dungeon st) (randint r (height (dungeon st) - r) g2))
            (\<lambda>(y, g3).
          add_room carve_inner place_player_coordinate fl
            (CircularRoom x y r) (st\<lparr>rng_state := g3\<rparr>))) (x, g2))"
        unfolding prod.case
      proof (rule draw_outcome [OF d])
        fix y g3 assume y: "r \<le> y" "y \<le> height (dungeon st) - r"
        have fits: "room_fits W H (CircularRoom x y r)"
          using r1 x y w h by (intro circle_fits) simp_all
        show "good_outcome W H
           ((\<lambda>(y, g3).
            add_room carve_inner place_player_coordinate fl
              (CircularRoom x y r) (st\<lparr>rng_state := g3\<rparr>)) (y, g3))"
          unfolding prod.case
          by (rule add_room_outcome [OF _ fits]) (simp_all add: inv)
      qed
    qed
  qed
qed

lemma draw_ring_outcome:
  assumes inv: "bounds_invariant W H st" and lo: "2 \<le> lo"
  shows "good_outcome W H
     (then_do (lift (dungeon st) (randint (lo div 2) (hi div 2) g0))
          (\<lambda>(radius, g1).
        then_do (lift (dungeon st) (randint 1 radius g1))
          (\<lambda>(inner_radius, g2).
        then_do (lift (dungeon st) (randint radius (width (dungeon st) - radius) g2))
          (\<lambda>(x, g3).
        then_do (lift (dungeon st) (randint radius (height (dungeon st) - radius) g3))
          (\<lambda>(y, g4).
        add_room carve_inner place_player_coordinate fl
          (RingRoom x y radius (Some inner_radius)) (st\<lparr>rng_state := g4\<rparr>))))))"
proof -
  have d: "map_ok W H (dungeon st)" and w: "width (dungeon st) = W" and h: "height (dungeon st) = H"
    using inv by (simp_all add: bounds_invariant_def map_ok_def)
  show ?thesis
  proof (rule draw_outcome [OF d])
    fix r g1 assume r: "lo div 2 \<le> r" "r \<le> hi div 2"
    have r1: "1 \<le> r" using r lo by linarith
    show "good_outcome W H
       ((\<lambda>(radius, g1).
        then_do (lift (dungeon st) (randint 1 radius g1))
          (\<lambda>(inner_radius, g2).
        then_do (lift (dungeon st) (randint radius (width (dungeon st) - radius) g2))
          (\<lambda>(x, g3).
        then_do (lift (dungeon st) (randint radius (height (dungeon st) - radius) g3))
          (\<lambda>(y, g4).
        add_room carve_inner place_player_coordinate fl
          (RingRoom x y radius (Some inner_radius)) (st\<lparr>rng_state := g4\<rparr>))))) (r, g1))"
      unfolding prod.case
    proof (rule draw_outcome [OF d])
      fix ir g2 assume "1 \<le> ir" "ir \<le> r"
      show "good_outcome W H
         ((\<lambda>(inner_radius, g2).
          then_do (lift (dungeon st) (randint r (width (dungeon st) - r) g2))
            (\<lambda>(x, g3).
          then_do (lift (dungeon st) (randint r (height (dungeon st) - r) g3))
            (\<lambda>(y, g4).
          add_room carve_inner place_player_coordinate fl
            (RingRoom x y r (Some inner_radius)) (st\<lparr>rng_state := g4\<rparr>)))) (ir, g2))"
        unfolding prod.case
      proof (rule draw_outcome [OF d])
        fix x g3 assume x: "r \<le> x" "x \<le> width (dungeon st) - r"
        show "good_outcome W H
           ((\<lambda>(x, g3).
            then_do (lift (dungeon st) (randint r (height (dungeon st) - r) g3))
              (\<lambda>(y, g4).
            add_room carve_inner place_player_coordinate fl
              (RingRoom x y r (Some ir)) (st\<lparr>rng_state := g4\<rparr>))) (x, g3))"
          unfolding prod.case
        proof (rule draw_outcome [OF d])
          fix y g4 assume y: "r \<le> y" "y \<le> height (dungeon st) - r"
          have fits: "room_fits W H (RingRoom x y r (Some ir))"
            using r1 x y w h by (intro ring_fits) simp_all
          show "good_outcome W H
             ((\<lambda>(y, g4).
              add_room carve_inner place_player_coordinate fl
                (RingRoom x y r (Some ir)) (st\<lparr>rng_state := g4\<rparr>)) (y, g4))"
            unfolding prod.case
            by (rule add_room_outcome [OF _ fits]) (simp_all add: inv)
        qed
      qed
    qed
  qed
qed

lemma test_dungeon_step_outcome:
  assumes inv: "bounds_invariant W H st" and lo: "2 \<le> lo"
  shows "good_outcome W H (test_dungeon_step lo hi fl st)"
proof -
  obtain u g0 where u: "random_unit (rng_state st) = (u, g0)"
    by (cases "random_unit (rng_state st)")
  have lo0: "0 \<le> lo" using lo by simp
  have c: "carve_inner = carve_slices \<or> carve_inner = carve_inner" by simp
  show ?thesis
    unfolding test_dungeon_step_def u Let_def prod.case
    using draw_rectangle_outcome [OF inv lo0 c, of hi g0 place_player_coordinate fl]
      draw_circle_outcome [OF inv lo, of hi g0 fl]
      draw_ring_outcome [OF inv lo, of hi g0 fl]
    by simp
qed

lemma room_loop_outcome:
  assumes "bounds_invariant W H st"
    and "\<And>s. bounds_invariant W H s \<Longrightarrow> good_outcome W H (body s)"
  shows "good_outcome W H (room_loop body n st)"
  using assms(1)
proof (induction n arbitrary: st)
  case 0
  then show ?case by (simp add: good_outcome_def)
next
  case (Suc n)
  show ?case
  proof (cases "body st")
    case (Inl ed)
    then show ?thesis using assms(2) [OF Suc.prems] by (simp add: good_outcome_def)
  next
    case (Inr s1)
    then have "bounds_invariant W H s1"
      using assms(2) [OF Suc.prems] by (simp add: good_outcome_def)
    from Suc.IH [OF this] show ?thesis by (simp add: Inr)
  qed
qed

lemma bounds_invariant_initial: "bounds_invariant W H (initial_state W H p g)"
  by (simp add: bounds_invariant_def map_ok_def initial_state_def GameMap_def)

lemma good_outcome_result:
  assumes "good_outcome W H r"
  shows "case then_do r (\<lambda>st. Inr (dungeon st)) of
           Inr d \<Rightarrow> width d = W \<and> height d = H \<and> (\<forall>xy \<in> set (written d). in_bounds d xy)
         | Inl (e, d) \<Rightarrow> width d = W \<and> height d = H \<and> (\<forall>xy \<in> set (written d). in_bounds d xy)
                          \<and> (\<forall>xy. e \<noteq> ArrayIndexError xy)"
proof (cases r)
  case (Inl ed)
  obtain e d where ed: "ed = (e, d)" by (cases ed)
  from assms show ?thesis
    by (auto simp: Inl ed good_outcome_def good_failure_def map_ok_def point_ok_in_bounds)
next
  case (Inr st)
  from assms show ?thesis
    by (auto simp: Inr good_outcome_def bounds_invariant_def map_ok_def point_ok_in_bounds)
qed

text \<open>
  Claim C10, amended. In \<^verbatim>\<open>generate_dungeon\<close> with a minimal room size of at least 0, and in
  \<^verbatim>\<open>test_dungeon\<close> with a minimal room size of at least 2 (so that every drawn radius is at
  least 1), every index stored to during generation (room carving, tunnel carving, stair
  placement) lies inside the map, whether the run returns or raises, and no store to the
  tile array raises \<^verbatim>\<open>IndexError\<close>; a draw that is not feasible raises before anything is
  stored. A circular or ring room whose centre is at distance of its radius or more from
  the edges of the map has all its inner tiles inside the map.
\<close>

theorem generation_writes_inside_the_map:
  "(0 \<le> room_min_size \<longrightarrow>
      (case generate_dungeon max_rooms room_min_size room_max_size map_width map_height
              the_player current_floor g of
         Inr d \<Rightarrow> width d = map_width \<and> height d = map_height
                  \<and> (\<forall>xy \<in> set (written d). in_bounds d xy)
       | Inl (e, d) \<Rightarrow> width d = map_width \<and> height d = map_height
                  \<and> (\<forall>xy \<in> set (written d). in_bounds d xy)
                  \<and> (\<forall>xy. e \<noteq> ArrayIndexError xy)))
   \<and> (2 \<le> room_min_size \<longrightarrow>
      (case test_dungeon max_rooms room_min_size room_max_size map_width map_height
              the_player current_floor g of
         Inr d \<Rightarrow> width d = map_width \<and> height d = map_height
                  \<and> (\<forall>xy \<in> set (written d). in_bounds d xy)
       | Inl (e, d) \<Rightarrow> width d = map_width \<and> height d = map_height
                  \<and> (\<forall>xy \<in> set (written d). in_bounds d xy)
                  \<and> (\<forall>xy. e \<noteq> ArrayIndexError xy)))
   \<and> (\<forall>x y radius xy.
        radius \<le> x \<and> x \<le> map_width - radius \<and> radius \<le> y \<and> y \<le> map_height - radius
        \<and> xy \<in> set (inner (CircularRoom x y radius)) \<longrightarrow>
        0 \<le> fst xy \<and> fst xy < map_width \<and> 0 \<le> snd xy \<and> snd xy < map_height)
   \<and> (\<forall>x y radius inner_radius xy.
        radius \<le> x \<and> x \<le> map_width - radius \<and> radius \<le> y \<and> y \<le> map_height - radius
        \<and> xy \<in> set (inner (RingRoom x y radius (Some inner_radius))) \<longrightarrow>
        0 \<le> fst xy \<and> fst xy < map_width \<and> 0 \<le> snd xy \<and> snd xy < map_height)"
proof (intro conjI allI impI)
  assume lo: "0 \<le> room_min_size"
  have "good_outcome map_width map_height
          (generate_dungeon_rooms max_rooms room_min_size room_max_size map_width map_height
             the_player current_floor g)"
    unfolding generate_dungeon_rooms_def
    by (rule room_loop_outcome [OF bounds_invariant_initial])
       (rule generate_dungeon_step_outcome [OF _ lo])
  from good_outcome_result [OF this]
  show "case generate_dungeon max_rooms room_min_size room_max_size map_width map_height
              the_player current_floor g of
         Inr d \<Rightarrow> width d = map_width \<and> height d = map_height
                  \<and> (\<forall>xy \<in> set (written d). in_bounds d xy)
       | Inl (e, d) \<Rightarrow> width d = map_width \<and> height d = map_height
                  \<and> (\<forall>xy \<in> set (written d). in_bounds d xy)
                  \<and> (\<forall>xy. e \<noteq> ArrayIndexError xy)"
    unfolding generate_dungeon_def .
next
  assume lo: "2 \<le> room_min_size"
  have "good_outcome map_width map_height
          (test_dungeon_rooms max_rooms room_min_size room_max_size map_width map_height
             the_player current_floor g)"
    unfolding test_dungeon_rooms_def
    by (rule room_loop_outcome [OF bounds_invariant_initial])
       (rule test_dungeon_step_outcome [OF _ lo])
  from good_outcome_result [OF this]
  show "case test_dungeon max_rooms room_min_size room_max_size map_width map_height
              the_player current_floor g of
         Inr d \<Rightarrow> width d = map_width \<and> height d = map_height
                  \<and> (\<forall>xy \<in> set (written d). in_bounds d xy)
       | Inl (e, d) \<Rightarrow> width d = map_width \<and> height d = map_height
                  \<and> (\<forall>xy \<in> set (written d). in_bounds d xy)
                  \<and> (\<forall>xy. e \<noteq> ArrayIndexError xy)"
    unfolding test_dungeon_def .
next
  fix x y radius xy
  assume a: "radius \<le> x \<and> x \<le> map_width - radius \<and> radius \<le> y \<and> y \<le> map_height - radius
        \<and> xy \<in> set (inner (CircularRoom x y radius))"
  then have "xy \<in> set (circle_inner x y radius)" by (simp add: CircularRoom_def)
  from circle_points_fit [OF _ _ _ _ this, of map_width map_height] a
  show "0 \<le> fst xy" "fst xy < map_width" "0 \<le> snd xy" "snd xy < map_height"
    by (simp_all add: point_ok_def)
next
  fix x y radius inner_radius xy
  assume a: "radius \<le> x \<and> x \<le> map_width - radius \<and> radius \<le> y \<and> y \<le> map_height - radius
        \<and> xy \<in> set (inner (RingRoom x y radius (Some inner_radius)))"
  then have "xy \<in> set (circle_inner x y radius)" by (simp add: RingRoom_def ring_inner_def)
  from circle_points_fit [OF _ _ _ _ this, of map_width map_height] a
  show "0 \<le> fst xy" "fst xy < map_width" "0 \<le> snd xy" "snd xy < map_height"
    by (simp_all add: point_ok_def)
qed

lemma circle_inner_radius_0: "circle_inner cx cy 0 = []"
proof -
  have "p \<notin> set (circle_inner cx cy 0)" for p
    by (cases p) (simp add: in_circle_inner)
  note h = this
  show ?thesis
  proof (cases "circle_inner cx cy 0")
    case Nil
    then show ?thesis .
  next
    case (Cons a l)
    then have "a \<in> set (circle_inner cx cy 0)" by simp
    with h show ?thesis by blast
  qed
qed

lemma tunnel_1_1_8_4:
  "tunnel_between (1, 1) (8, 4) (0 # g) =
     ([(1, 1), (2, 1), (3, 1), (4, 1), (5, 1), (6, 1), (7, 1), (8, 1),
       (8, 1), (8, 2), (8, 3), (8, 4)], g)"
proof -
  have a: "bresenham (1, 1) (8, 1) = [(1, 1), (2, 1), (3, 1), (4, 1), (5, 1), (6, 1), (7, 1), (8, 1)]"
    by (simp add: bresenham_def eval_nat_numeral)
  have b: "bresenham (8, 1) (8, 4) = [(8, 1), (8, 2), (8, 3), (8, 4)]"
    by (simp add: bresenham_def eval_nat_numeral)
  show ?thesis
    by (simp add: tunnel_between_def random_unit_zero tunnel_corner_def Let_def a b)
qed

text \<open>
  Claim C10 as stated fails in \<^verbatim>\<open>test_dungeon\<close> for a minimal room size of 1 on an 8 by 8
  map with maximal size 2: the radius 0 is drawn, the centre of the circle is put at
  \<open>x = 8\<close>, and the tunnel to it stores at \<open>(8, 1)\<close>, outside the map.
\<close>

theorem test_dungeon_radius_0_leaves_the_map:
  "(2 :: int) \<le> 8 - 2
   \<and> (\<exists>d. test_dungeon 2 1 2 8 8 \<lparr>kind = player, ent_x = 0, ent_y = 0\<rparr> 0
            [0, 1, 1, 0, 0, 0, 0, 6755399441055744, 0, 8, 4, 0]
          = Inl (ArrayIndexError (8, 1), d))"
proof -
  have n: "nat 2 = Suc (Suc 0)" by simp
  have "\<exists>d. test_dungeon 2 1 2 8 8 \<lparr>kind = player, ent_x = 0, ent_y = 0\<rparr> 0
            [0, 1, 1, 0, 0, 0, 0, 6755399441055744, 0, 8, 4, 0]
          = Inl (ArrayIndexError (8, 1), d)"
    unfolding test_dungeon_def test_dungeon_rooms_def n room_loop.simps
    by (simp add: initial_state_def GameMap_def test_dungeon_step_def lift_def
          random_unit_zero random_unit_three_quarters
          randint_def next_raw_def RectangularRoom_def CircularRoom_def add_room_def
          carve_inner_def circle_inner_radius_0
          set_tiles_slice_def rect_inner_def slice_indices_def slice_bound_def
          intersects_def int_half_def place_def place_entities_floor_0
          set_tile_def array_index_def tunnel_1_1_8_4 Let_def)
  then show ?thesis by simp
qed

text \<open>
  The two runs above with their stores, all inside the 8 by 8 map.
\<close>

theorem generation_writes_of_two_runs:
  "(\<exists>d. generate_dungeon 2 2 2 8 8 \<lparr>kind = player, ent_x = 0, ent_y = 0\<rparr> 0
            [0, 0, 0, 0, 0, 0, 0, 0, 4, 4, 0, 0, 0] = Inr d
      \<and> written d =
          [(1, 1), (0, 0), (5, 5), (1, 1), (2, 1), (3, 1), (4, 1), (5, 1),
           (5, 1), (5, 2), (5, 3), (5, 4), (5, 5), (5, 5)]
      \<and> list_all (in_bounds d) (written d))
   \<and> (\<exists>d. test_dungeon 2 2 2 8 8 \<lparr>kind = player, ent_x = 0, ent_y = 0\<rparr> 0
            [0, 0, 0, 0, 0, 0, 0, 6755399441055744, 0, 4, 4, 0, 0, 0] = Inr d
      \<and> written d =
          [(1, 1), (0, 0), (5, 5), (1, 1), (2, 1), (3, 1), (4, 1), (5, 1),
           (5, 1), (5, 2), (5, 3), (5, 4), (5, 5), (5, 5)]
      \<and> list_all (in_bounds d) (written d))"
proof -
  let ?p = "\<lparr>kind = player, ent_x = 0, ent_y = 0\<rparr>"
  let ?g = "[0, 0, 0, 0, 0, 0, 0, 0, 4, 4, 0, 0, 0] :: rng"
  let ?h = "[0, 0, 0, 0, 0, 0, 0, 6755399441055744, 0, 4, 4, 0, 0, 0] :: rng"
  let ?w = "[(1, 1), (0, 0), (5, 5), (1, 1), (2, 1), (3, 1), (4, 1), (5, 1),
           (5, 1), (5, 2), (5, 3), (5, 4), (5, 5), (5, 5)] :: (int \<times> int) list"
  from two_rooms_run obtain s where
    s: "generate_dungeon_rooms 2 2 2 8 8 ?p 0 ?g = Inr s" "written (dungeon s) = ?w"
    by blast
  from rect_and_circle_run obtain t where
    t: "test_dungeon_rooms 2 2 2 8 8 ?p 0 ?h = Inr t" "written (dungeon t) = ?w"
    by blast
  have gs: "generate_dungeon 2 2 2 8 8 ?p 0 ?g = Inr (dungeon s)"
    by (simp add: generate_dungeon_def s(1))
  have gt: "test_dungeon 2 2 2 8 8 ?p 0 ?h = Inr (dungeon t)"
    by (simp add: test_dungeon_def t(1))
  have ws: "\<forall>xy \<in> set (written (dungeon s)). in_bounds (dungeon s) xy"
    using generation_writes_inside_the_map [where max_rooms = 2 and room_min_size = 2
        and room_max_size = 2 and map_width = 8 and map_height = 8 and the_player = ?p
        and current_floor = 0 and g = ?g]
    by (simp add: gs)
  have wt: "\<forall>xy \<in> set (written (dungeon t)). in_bounds (dungeon t) xy"
    using generation_writes_inside_the_map [where max_rooms = 2 and room_min_size = 2
        and room_max_size = 2 and map_width = 8 and map_height = 8 and the_player = ?p
        and current_floor = 0 and g = ?h]
    by (simp add: gt)
  have "list_all (in_bounds (dungeon s)) (written (dungeon s))"
    using ws by (simp only: list_all_iff)
  moreover have "list_all (in_bounds (dungeon t)) (written (dungeon t))"
    using wt by (simp only: list_all_iff)
  ultimately show ?thesis using gs gt s(2) t(2) by blast
qed


subsection \<open>Entities of the rooms that are not rectangles\<close>

lemma circle_inner_4_4_2:
  "circle_inner 4 4 2 = [(3, 3), (3, 4), (3, 5), (4, 3), (4, 4), (4, 5), (5, 3), (5, 4), (5, 5)]"
proof -
  have u: "[- 2..2] = [- 2, - 1, 0, 1, (2::int)]" by (simp add: upto_rec1)
  have s: "sqrt (real_of_int n) < 2 \<longleftrightarrow> n < 4" if "0 \<le> n" for n
    using sqrt_less_int [OF that, of 2] by simp
  have s2: "sqrt 2 < 2" using s [of 2] by simp
  have s5: "\<not> sqrt 5 < 2" using s [of 5] by simp
  have s8: "\<not> sqrt 8 < 2" using s [of 8] by simp
  show ?thesis
    unfolding circle_inner_def u by (simp add: s2 s5 s8)
qed

lemma circle_inner_4_4_1: "circle_inner 4 4 1 = [(4, 4)]"
  by (rule circle_inner_radius_1)

lemma ring_inner_4_4_2_1:
  "ring_inner 4 4 2 1 = [(3, 3), (3, 4), (3, 5), (4, 3), (4, 5), (5, 3), (5, 4), (5, 5)]"
  by (simp add: ring_inner_def circle_inner_4_4_2 circle_inner_4_4_1)

lemma random_unit_fifteen_sixteenths: "random_unit (8444249301319680 # g) = (15 / 16, g)"
  by (simp add: random_unit_def next_raw_def)

lemma ring_room_run:
  "\<exists>st. test_dungeon_rooms 1 4 4 8 8 \<lparr>kind = player, ent_x = 0, ent_y = 0\<rparr> 1
            [8444249301319680, 0, 0, 2, 2, 1, 0, 0, 1, 1] = Inr st
      \<and> rooms st = [Ring 4 4 2 1]
      \<and> entities (dungeon st) =
            [\<lparr>kind = player, ent_x = 4, ent_y = 3\<rparr>, \<lparr>kind = orc, ent_x = 4, ent_y = 4\<rparr>]
      \<and> width (dungeon st) = 8 \<and> height (dungeon st) = 8
      \<and> tiles (dungeon st) (4, 4) = tile_wall
      \<and> tiles (dungeon st) (4, 3) = tile_floor"
proof -
  have n: "nat 1 = Suc 0" by simp
  show ?thesis
    unfolding test_dungeon_rooms_def n room_loop.simps
    by (simp add: initial_state_def GameMap_def test_dungeon_step_def lift_def
          random_unit_fifteen_sixteenths
          randint_def next_raw_def RingRoom_def add_room_def
          carve_inner_def ring_inner_4_4_2_1
          intersects_def place_def place_entities_one_orc place_loop_step spawn_def
          set_tile_def array_index_def Let_def)
qed

text \<open>
  Claim C6 does not hold of the code for the rooms of \<^verbatim>\<open>test_dungeon\<close> that are not
  rectangles: \<^verbatim>\<open>place_entities\<close> draws the position between the corners of the bounding
  box, whatever the shape. \<^verbatim>\<open>test_dungeon\<close> with one room of size 4 on an 8 by 8 map, on floor
  1, builds the ring of radius 2 and inner radius 1 at \<open>(4, 4)\<close>, places the controlled
  agent at \<open>(4, 3)\<close> and spawns an orc at \<open>(4, 4)\<close>: the hole of the ring, which is not a
  tile of the room's inner area and is still a wall in the level returned. Likewise
  \<^verbatim>\<open>place_entities\<close> spawns an orc at \<open>(13, 13)\<close> for the circle of radius 4 at \<open>(10, 10)\<close>,
  whose inner area does not hold that tile.
\<close>

theorem place_entities_spawns_outside_the_room:
  "(\<exists>d. test_dungeon 1 4 4 8 8 \<lparr>kind = player, ent_x = 0, ent_y = 0\<rparr> 1
            [8444249301319680, 0, 0, 2, 2, 1, 0, 0, 1, 1] = Inr d
        \<and> entities d =
            [\<lparr>kind = player, ent_x = 4, ent_y = 3\<rparr>, \<lparr>kind = orc, ent_x = 4, ent_y = 4\<rparr>]
        \<and> tile_at d (4, 4) = Some tile_wall
        \<and> tile_at d (4, 3) = Some tile_floor)
   \<and> (4, 4) \<notin> set (inner (RingRoom 4 4 2 (Some 1)))
   \<and> place_entities (CircularRoom 10 10 4)
       (GameMap 20 20 [\<lparr>kind = player, ent_x = 0, ent_y = 0\<rparr>]) 1 [1, 0, 0, 6, 6]
     = Inr ((GameMap 20 20 [\<lparr>kind = player, ent_x = 0, ent_y = 0\<rparr>])
              \<lparr>entities := [\<lparr>kind = player, ent_x = 0, ent_y = 0\<rparr>,
                             \<lparr>kind = orc, ent_x = 13, ent_y = 13\<rparr>]\<rparr>, [])
   \<and> (13, 13) \<notin> set (inner (CircularRoom 10 10 4))"
proof -
  let ?p = "\<lparr>kind = player, ent_x = 0, ent_y = 0\<rparr>"
  let ?g = "[8444249301319680, 0, 0, 2, 2, 1, 0, 0, 1, 1] :: rng"
  from ring_room_run obtain st where
    st: "test_dungeon_rooms 1 4 4 8 8 ?p 1 ?g = Inr st"
      "entities (dungeon st) =
         [\<lparr>kind = player, ent_x = 4, ent_y = 3\<rparr>, \<lparr>kind = orc, ent_x = 4, ent_y = 4\<rparr>]"
      "width (dungeon st) = 8" "height (dungeon st) = 8"
      "tiles (dungeon st) (4, 4) = tile_wall" "tiles (dungeon st) (4, 3) = tile_floor"
    by blast
  have run: "test_dungeon 1 4 4 8 8 ?p 1 ?g = Inr (dungeon st)"
    using st(1) by (simp add: test_dungeon_def)
  have w: "tile_at (dungeon st) (4, 4) = Some tile_wall"
    by (simp add: tile_at_def array_index_def st)
  have f: "tile_at (dungeon st) (4, 3) = Some tile_floor"
    by (simp add: tile_at_def array_index_def st)
  have ring: "\<exists>d. test_dungeon 1 4 4 8 8 ?p 1 ?g = Inr d
        \<and> entities d =
            [\<lparr>kind = player, ent_x = 4, ent_y = 3\<rparr>, \<lparr>kind = orc, ent_x = 4, ent_y = 4\<rparr>]
        \<and> tile_at d (4, 4) = Some tile_wall
        \<and> tile_at d (4, 3) = Some tile_floor"
    using run st(2) w f by blast
  have hole: "(4, 4) \<notin> set (inner (RingRoom 4 4 2 (Some 1)))"
    by (simp add: RingRoom_def ring_inner_4_4_2_1)
  let ?d = "GameMap 20 20 [?p]"
  have loop: "place_loop (CircularRoom 10 10 4) [orc] ?d [6, 6]
     = Inr (?d\<lparr>entities := [?p, \<lparr>kind = orc, ent_x = 13, ent_y = 13\<rparr>]\<rparr>, [])"
    by (simp add: place_loop_step CircularRoom_def randint_def next_raw_def spawn_def GameMap_def)
  have circle: "place_entities (CircularRoom 10 10 4) ?d 1 [1, 0, 0, 6, 6]
     = Inr (?d\<lparr>entities := [?p, \<lparr>kind = orc, ent_x = 13, ent_y = 13\<rparr>]\<rparr>, [])"
    using place_entities_one_orc [of "CircularRoom 10 10 4" ?d 0 "[6, 6]"] loop by simp
  have out: "(13, 13) \<notin> set (inner (CircularRoom 10 10 4))"
    by (simp add: CircularRoom_def in_circle_inner)
  show ?thesis using ring hole circle out by (intro conjI)
qed


section \<open>Properties of the turn cycle\<close>

subsection \<open>Field of view\<close>

lemma update_fov_fields:
  "visible (game_map (update_fov compute_fov self)) =
     compute_fov (\<lambda>p. transparent (tiles (game_map self) p))
       (ent_x (engine_player self), ent_y (engine_player self)) 8"
  "explored (game_map (update_fov compute_fov self)) =
     (\<lambda>p. explored (game_map self) p \<or> visible (game_map (update_fov compute_fov self)) p)"
  "tiles (game_map (update_fov compute_fov self)) = tiles (game_map self)"
  "engine_player (update_fov compute_fov self) = engine_player self"
  by (simp_all add: update_fov_def Let_def)

lemma update_fov_forgets_visible:
  "update_fov compute_fov (self\<lparr>game_map := (game_map self)\<lparr>visible := v\<rparr>\<rparr>) =
     update_fov compute_fov self"
  by (simp add: update_fov_def Let_def)

lemma turns_explored_grows:
  assumes "\<forall>change \<in> set changes. \<forall>e. explored (game_map e) p \<longrightarrow> explored (game_map (change e)) p"
    and "explored (game_map self) p"
  shows "explored (game_map (turns compute_fov changes self)) p"
  using assms
proof (induction changes arbitrary: self)
  case Nil
  then show ?case by simp
next
  case (Cons change rest)
  have "explored (game_map (change self)) p" using Cons.prems by simp
  then have "explored (game_map (update_fov compute_fov (change self))) p"
    by (simp add: update_fov_fields)
  with Cons show ?case by simp
qed

lemma turns_visible_explored:
  assumes "changes \<noteq> []" "visible (game_map (turns compute_fov changes self)) p"
  shows "explored (game_map (turns compute_fov changes self)) p"
  using assms
proof (induction changes arbitrary: self)
  case Nil
  then show ?case by simp
next
  case (Cons change rest)
  show ?case
  proof (cases "rest = []")
    case True
    then show ?thesis using Cons.prems by (simp add: update_fov_fields)
  next
    case False
    from Cons.IH [OF False] Cons.prems show ?thesis by simp
  qed
qed

text \<open>
  Claim C1. For every visibility function, engine and earlier content of \<^verbatim>\<open>visible\<close>:
  after \<^verbatim>\<open>update_fov\<close> the array \<^verbatim>\<open>visible\<close> is the result of the radius-8 sweep from the
  controlled entity's position over the transparency of the tiles, and nothing of the
  earlier \<^verbatim>\<open>visible\<close> remains; \<^verbatim>\<open>explored\<close> is its earlier value joined with the new
  \<^verbatim>\<open>visible\<close>, so an explored cell stays explored and every visible cell is explored. Over
  a sequence of turns whose changes between refreshes clear no explored cell, a cell once
  explored is explored at the end, and after the last refresh every visible cell is
  explored.
\<close>

theorem update_fov_replaces_visible_and_grows_explored:
  "visible (game_map (update_fov compute_fov self)) =
       compute_fov (\<lambda>p. transparent (tiles (game_map self) p))
         (ent_x (engine_player self), ent_y (engine_player self)) 8
   \<and> update_fov compute_fov (self\<lparr>game_map := (game_map self)\<lparr>visible := v\<rparr>\<rparr>) =
       update_fov compute_fov self
   \<and> explored (game_map (update_fov compute_fov self)) =
       (\<lambda>p. explored (game_map self) p \<or> visible (game_map (update_fov compute_fov self)) p)
   \<and> (\<forall>p. explored (game_map self) p \<longrightarrow> explored (game_map (update_fov compute_fov self)) p)
   \<and> (\<forall>p. visible (game_map (update_fov compute_fov self)) p \<longrightarrow>
            explored (game_map (update_fov compute_fov self)) p)
   \<and> (\<forall>p. (\<forall>change \<in> set changes. \<forall>e. explored (game_map e) p \<longrightarrow>
                 explored (game_map (change e)) p) \<longrightarrow>
            explored (game_map self) p \<longrightarrow>
            explored (game_map (turns compute_fov changes self)) p)
   \<and> (\<forall>p. changes \<noteq> [] \<longrightarrow>
            visible (game_map (turns compute_fov changes self)) p \<longrightarrow>
            explored (game_map (turns compute_fov changes self)) p)"
proof (intro conjI allI impI)
  show "visible (game_map (update_fov compute_fov self)) =
       compute_fov (\<lambda>p. transparent (tiles (game_map self) p))
         (ent_x (engine_player self), ent_y (engine_player self)) 8"
    by (rule update_fov_fields)
  show "update_fov compute_fov (self\<lparr>game_map := (game_map self)\<lparr>visible := v\<rparr>\<rparr>) =
       update_fov compute_fov self"
    by (rule update_fov_forgets_visible)
  show "explored (game_map (update_fov compute_fov self)) =
       (\<lambda>p. explored (game_map self) p \<or> visible (game_map (update_fov compute_fov self)) p)"
    by (rule update_fov_fields)
next
  fix p assume "explored (game_map self) p"
  then show "explored (game_map (update_fov compute_fov self)) p"
    by (simp add: update_fov_fields)
next
  fix p assume "visible (game_map (update_fov compute_fov self)) p"
  then show "explored (game_map (update_fov compute_fov self)) p"
    by (simp add: update_fov_fields)
next
  fix p
  assume "\<forall>change \<in> set changes. \<forall>e. explored (game_map e) p \<longrightarrow>
                 explored (game_map (change e)) p"
    and "explored (game_map self) p"
  then show "explored (game_map (turns compute_fov changes self)) p"
    by (rule turns_explored_grows)
next
  fix p
  assume "changes \<noteq> []" "visible (game_map (turns compute_fov changes self)) p"
  then show "explored (game_map (turns compute_fov changes self)) p"
    by (rule turns_visible_explored)
qed

theorem update_fov_two_refreshes:
  "visible (game_map (update_fov (\<lambda>t pov r p. max \<bar>fst p - fst pov\<bar> \<bar>snd p - snd pov\<bar> \<le> 1)
      \<lparr>game_map = GameMap 20 20 [\<lparr>kind = player, ent_x = 1, ent_y = 1\<rparr>],
       engine_player = \<lparr>kind = player, ent_x = 1, ent_y = 1\<rparr>\<rparr>)) (1, 1)
   \<and> explored (game_map (update_fov (\<lambda>t pov r p. max \<bar>fst p - fst pov\<bar> \<bar>snd p - snd pov\<bar> \<le> 1)
      \<lparr>game_map = GameMap 20 20 [\<lparr>kind = player, ent_x = 1, ent_y = 1\<rparr>],
       engine_player = \<lparr>kind = player, ent_x = 1, ent_y = 1\<rparr>\<rparr>)) (1, 1)
   \<and> \<not> visible (game_map (turns (\<lambda>t pov r p. max \<bar>fst p - fst pov\<bar> \<bar>snd p - snd pov\<bar> \<le> 1)
      [\<lambda>e. e\<lparr>engine_player := (engine_player e)\<lparr>ent_x := 10, ent_y := 10\<rparr>\<rparr>]
      (update_fov (\<lambda>t pov r p. max \<bar>fst p - fst pov\<bar> \<bar>snd p - snd pov\<bar> \<le> 1)
      \<lparr>game_map = GameMap 20 20 [\<lparr>kind = player, ent_x = 1, ent_y = 1\<rparr>],
       engine_player = \<lparr>kind = player, ent_x = 1, ent_y = 1\<rparr>\<rparr>))) (1, 1)
   \<and> explored (game_map (turns (\<lambda>t pov r p. max \<bar>fst p - fst pov\<bar> \<bar>snd p - snd pov\<bar> \<le> 1)
      [\<lambda>e. e\<lparr>engine_player := (engine_player e)\<lparr>ent_x := 10, ent_y := 10\<rparr>\<rparr>]
      (update_fov (\<lambda>t pov r p. max \<bar>fst p - fst pov\<bar> \<bar>snd p - snd pov\<bar> \<le> 1)
      \<lparr>game_map = GameMap 20 20 [\<lparr>kind = player, ent_x = 1, ent_y = 1\<rparr>],
       engine_player = \<lparr>kind = player, ent_x = 1, ent_y = 1\<rparr>\<rparr>))) (1, 1)
   \<and> visible (game_map (turns (\<lambda>t pov r p. max \<bar>fst p - fst pov\<bar> \<bar>snd p - snd pov\<bar> \<le> 1)
      [\<lambda>e. e\<lparr>engine_player := (engine_player e)\<lparr>ent_x := 10, ent_y := 10\<rparr>\<rparr>]
      (update_fov (\<lambda>t pov r p. max \<bar>fst p - fst pov\<bar> \<bar>snd p - snd pov\<bar> \<le> 1)
      \<lparr>game_map = GameMap 20 20 [\<lparr>kind = player, ent_x = 1, ent_y = 1\<rparr>],
       engine_player = \<lparr>kind = player, ent_x = 1, ent_y = 1\<rparr>\<rparr>))) (10, 10)
   \<and> explored (game_map (turns (\<lambda>t pov r p. max \<bar>fst p - fst pov\<bar> \<bar>snd p - snd pov\<bar> \<le> 1)
      [\<lambda>e. e\<lparr>engine_player := (engine_player e)\<lparr>ent_x := 10, ent_y := 10\<rparr>\<rparr>]
      (update_fov (\<lambda>t pov r p. max \<bar>fst p - fst pov\<bar> \<bar>snd p - snd pov\<bar> \<le> 1)
      \<lparr>game_map = GameMap 20 20 [\<lparr>kind = player, ent_x = 1, ent_y = 1\<rparr>],
       engine_player = \<lparr>kind = player, ent_x = 1, ent_y = 1\<rparr>\<rparr>))) (10, 10)"
proof -
  let ?fov = "\<lambda>(t :: int \<times> int \<Rightarrow> bool) (pov :: int \<times> int) (r :: int) (p :: int \<times> int).
                max \<bar>fst p - fst pov\<bar> \<bar>snd p - snd pov\<bar> \<le> 1"
  let ?e0 = "\<lparr>game_map = GameMap 20 20 [\<lparr>kind = player, ent_x = 1, ent_y = 1\<rparr>],
       engine_player = \<lparr>kind = player, ent_x = 1, ent_y = 1\<rparr>\<rparr>"
  let ?c = "\<lambda>e. e\<lparr>engine_player := (engine_player e)\<lparr>ent_x := 10, ent_y := 10\<rparr>\<rparr>"
  let ?e1 = "update_fov ?fov ?e0"
  let ?e2 = "turns ?fov [?c] ?e1"
  have v1: "visible (game_map ?e1) (1, 1)" by (simp add: update_fov_def Let_def)
  have x1: "explored (game_map ?e1) (1, 1)"
    using update_fov_replaces_visible_and_grows_explored [of ?fov ?e0] v1 by blast
  have keep: "\<forall>change \<in> set [?c]. \<forall>e. explored (game_map e) (1, 1) \<longrightarrow>
                 explored (game_map (change e)) (1, 1)"
    by simp
  have x2: "explored (game_map ?e2) (1, 1)"
    using update_fov_replaces_visible_and_grows_explored [of ?fov ?e1 _ "[?c]"] keep x1 by blast
  have nv2: "\<not> visible (game_map ?e2) (1, 1)" by (simp add: update_fov_def Let_def)
  have v2: "visible (game_map ?e2) (10, 10)" by (simp add: update_fov_def Let_def)
  have x3: "explored (game_map ?e2) (10, 10)"
    using update_fov_replaces_visible_and_grows_explored [of ?fov ?e1 _ "[?c]"] v2 by blast
  show ?thesis by (intro conjI v1 x1 nv2 x2 v2 x3)
qed


subsection \<open>Enemy turns\<close>

lemma enemy_turns_invoked_subset:
  "set (snd (fst (enemy_turns ai perform order w))) \<subseteq> set order"
proof (induction order arbitrary: w)
  case Nil
  show ?case by simp
next
  case (Cons entity rest)
  show ?case
  proof (cases "ai entity w")
    case False
    then show ?thesis using Cons [of w] by auto
  next
    case True
    obtain w' r where p: "perform entity w = (w', r)" by (cases "perform entity w")
    obtain w'' inv x where t: "enemy_turns ai perform rest w' = ((w'', inv), x)"
      by (cases "enemy_turns ai perform rest w'") auto
    have "set inv \<subseteq> set rest" using Cons [of w'] t by simp
    then show ?thesis
      using True p t by (auto split: option.splits exn.splits)
  qed
qed

lemma enemy_turns_invoked_distinct:
  "distinct order \<Longrightarrow> distinct (snd (fst (enemy_turns ai perform order w)))"
proof (induction order arbitrary: w)
  case Nil
  show ?case by simp
next
  case (Cons entity rest)
  show ?case
  proof (cases "ai entity w")
    case False
    then show ?thesis using Cons by simp
  next
    case True
    obtain w' r where p: "perform entity w = (w', r)" by (cases "perform entity w")
    obtain w'' inv x where t: "enemy_turns ai perform rest w' = ((w'', inv), x)"
      by (cases "enemy_turns ai perform rest w'") auto
    have "distinct inv" using Cons.IH [of w'] Cons.prems t by simp
    moreover have "entity \<notin> set inv"
      using enemy_turns_invoked_subset [of ai perform rest w'] t Cons.prems by auto
    ultimately show ?thesis
      using True p t by (auto split: option.splits exn.splits)
  qed
qed

lemma enemy_turns_never_Impossible:
  "snd (enemy_turns ai perform order w) \<noteq> Some Impossible"
proof (induction order arbitrary: w)
  case Nil
  show ?case by simp
next
  case (Cons entity rest)
  show ?case
  proof (cases "ai entity w")
    case False
    then show ?thesis using Cons by simp
  next
    case True
    obtain w' r where p: "perform entity w = (w', r)" by (cases "perform entity w")
    obtain w'' inv x where t: "enemy_turns ai perform rest w' = ((w'', inv), x)"
      by (cases "enemy_turns ai perform rest w'") auto
    have "x \<noteq> Some Impossible" using Cons [of w'] t by simp
    then show ?thesis
      using True p t by (auto split: option.splits exn.splits)
  qed
qed

lemma enemy_turns_append:
  "enemy_turns ai perform (pre @ rest) w =
     (case enemy_turns ai perform pre w of
        ((w1, inv1), None) \<Rightarrow>
          (case enemy_turns ai perform rest w1 of
             ((w2, inv2), x) \<Rightarrow> ((w2, inv1 @ inv2), x))
      | (r, Some x) \<Rightarrow> (r, Some x))"
proof (induction pre arbitrary: w)
  case Nil
  show ?case by (simp split: prod.splits)
next
  case (Cons entity pre)
  show ?case
  proof (cases "ai entity w")
    case False
    then show ?thesis using Cons by simp
  next
    case True
    obtain w' r where p: "perform entity w = (w', r)" by (cases "perform entity w")
    show ?thesis
      using True p Cons [of w']
      by (auto split: option.splits exn.splits prod.splits)
  qed
qed

lemma enemy_turns_acting:
  "ai entity w \<Longrightarrow> snd (perform entity w) = None \<or> snd (perform entity w) = Some Impossible \<Longrightarrow>
   enemy_turns ai perform (entity # rest) w =
     (case enemy_turns ai perform rest (fst (perform entity w)) of
        ((w'', invoked), raised) \<Rightarrow> ((w'', entity # invoked), raised))"
  by (cases "perform entity w") auto

lemma enemy_turns_failing:
  "ai entity w \<Longrightarrow> snd (perform entity w) = Some x \<Longrightarrow> x \<noteq> Impossible \<Longrightarrow>
   enemy_turns ai perform (entity # rest) w = ((fst (perform entity w), [entity]), Some x)"
  by (cases "perform entity w") (auto split: exn.splits)

lemma enemy_turns_head_invoked:
  "ai entity w \<Longrightarrow> entity \<in> set (snd (fst (enemy_turns ai perform (entity # rest) w)))"
  by (cases "perform entity w") (auto split: option.splits exn.splits prod.splits)

lemma enemy_turns_stable_ai:
  assumes "\<forall>a b v. ai a (fst (perform b v)) = ai a v"
    and "snd (enemy_turns ai perform order w) = None"
  shows "snd (fst (enemy_turns ai perform order w)) = filter (\<lambda>e. ai e w) order"
  using assms(2)
proof (induction order arbitrary: w)
  case Nil
  show ?case by simp
next
  case (Cons entity rest)
  show ?case
  proof (cases "ai entity w")
    case False
    then show ?thesis using Cons by simp
  next
    case True
    obtain w' r where p: "perform entity w = (w', r)" by (cases "perform entity w")
    obtain w'' inv x where t: "enemy_turns ai perform rest w' = ((w'', inv), x)"
      by (cases "enemy_turns ai perform rest w'") auto
    have same: "\<And>a. ai a w' = ai a w" using assms(1) [rule_format, of _ entity w] p by simp
    have r: "r = None \<or> r = Some Impossible"
      using Cons.prems True p by (auto split: option.splits exn.splits)
    then have x: "x = None" using Cons.prems True p t by auto
    have "inv = filter (\<lambda>e. ai e w') rest" using Cons.IH [of w'] t x by simp
    then have "inv = filter (\<lambda>e. ai e w) rest" by (simp add: same)
    then show ?thesis using True p t r by auto
  qed
qed

lemma enemy_turns_turn_of:
  assumes "distinct (pre @ e # post)"
    and "snd (enemy_turns ai perform pre w) = None"
  shows "e \<in> set (snd (fst (enemy_turns ai perform (pre @ e # post) w))) \<longleftrightarrow>
         ai e (fst (fst (enemy_turns ai perform pre w)))"
proof -
  obtain w1 inv1 where a: "enemy_turns ai perform pre w = ((w1, inv1), None)"
    using assms(2) by (cases "enemy_turns ai perform pre w") auto
  obtain w2 inv2 x where b: "enemy_turns ai perform (e # post) w1 = ((w2, inv2), x)"
    by (cases "enemy_turns ai perform (e # post) w1") auto
  have whole: "snd (fst (enemy_turns ai perform (pre @ e # post) w)) = inv1 @ inv2"
    using a b by (simp add: enemy_turns_append)
  have "set inv1 \<subseteq> set pre" using enemy_turns_invoked_subset [of ai perform pre w] a by simp
  then have e1: "e \<notin> set inv1" using assms(1) by auto
  have e2: "e \<in> set inv2 \<longleftrightarrow> ai e w1"
  proof (cases "ai e w1")
    case True
    then show ?thesis using enemy_turns_head_invoked [of ai e w1 perform post] b by simp
  next
    case False
    then have "inv2 = snd (fst (enemy_turns ai perform post w1))" using b by simp
    then have "set inv2 \<subseteq> set post" using enemy_turns_invoked_subset [of ai perform post w1] by simp
    then show ?thesis using False assms(1) by auto
  qed
  show ?thesis using whole e1 e2 a by simp
qed

text \<open>
  Claim C7. For every iteration order of the placed entities other than the controlled
  one, \<^verbatim>\<open>handle_enemy_turns\<close> invokes no action twice and none of an entity outside that
  set, and never raises \<^verbatim>\<open>Impossible\<close>. When the turns before an entity complete, its action
  is invoked exactly if it carries an acting capability at that moment; when no action
  changes who carries one and the cycle completes, the invoked entities are exactly
  those of the order that carry one. An action that returns or raises \<^verbatim>\<open>Impossible\<close> is
  followed by the turns of the remaining entities; an action that raises anything else
  ends the cycle with that exception. With a single acting entity whose action raises
  \<^verbatim>\<open>Impossible\<close> the call completes, and the state is the one the action left.
\<close>

theorem handle_enemy_turns_acts_once_and_absorbs_Impossible:
  "order \<in> iteration_orders actors the_player \<Longrightarrow>
     distinct (snd (fst (handle_enemy_turns ai perform order w)))
   \<and> set (snd (fst (handle_enemy_turns ai perform order w))) \<subseteq> set actors - {the_player}
   \<and> snd (handle_enemy_turns ai perform order w) \<noteq> Some Impossible
   \<and> (\<forall>pre e post. order = pre @ e # post \<longrightarrow>
        snd (handle_enemy_turns ai perform pre w) = None \<longrightarrow>
        (e \<in> set (snd (fst (handle_enemy_turns ai perform order w))) \<longleftrightarrow>
         ai e (fst (fst (handle_enemy_turns ai perform pre w)))))
   \<and> ((\<forall>a b v. ai a (fst (perform b v)) = ai a v) \<longrightarrow>
        snd (handle_enemy_turns ai perform order w) = None \<longrightarrow>
        snd (fst (handle_enemy_turns ai perform order w)) = filter (\<lambda>e. ai e w) order)
   \<and> (\<forall>e rest v. ai e v \<longrightarrow>
        snd (perform e v) = None \<or> snd (perform e v) = Some Impossible \<longrightarrow>
        handle_enemy_turns ai perform (e # rest) v =
          (case handle_enemy_turns ai perform rest (fst (perform e v)) of
             ((v', invoked), raised) \<Rightarrow> ((v', e # invoked), raised)))
   \<and> (\<forall>e rest v x. ai e v \<longrightarrow> snd (perform e v) = Some x \<longrightarrow> x \<noteq> Impossible \<longrightarrow>
        handle_enemy_turns ai perform (e # rest) v = ((fst (perform e v), [e]), Some x))
   \<and> (\<forall>e. order = [e] \<longrightarrow> ai e w \<longrightarrow> snd (perform e w) = Some Impossible \<longrightarrow>
        handle_enemy_turns ai perform order w = ((fst (perform e w), [e]), None))"
proof -
  assume ord: "order \<in> iteration_orders actors the_player"
  then have d: "distinct order" and s: "set order = set actors - {the_player}"
    by (simp_all add: iteration_orders_def)
  have c1: "distinct (snd (fst (handle_enemy_turns ai perform order w)))"
    unfolding handle_enemy_turns_def using d by (rule enemy_turns_invoked_distinct)
  have c2: "set (snd (fst (handle_enemy_turns ai perform order w))) \<subseteq> set actors - {the_player}"
    unfolding handle_enemy_turns_def using enemy_turns_invoked_subset [of ai perform order w] s
    by simp
  have c3: "snd (handle_enemy_turns ai perform order w) \<noteq> Some Impossible"
    unfolding handle_enemy_turns_def by (rule enemy_turns_never_Impossible)
  have c4: "\<forall>pre e post. order = pre @ e # post \<longrightarrow>
        snd (handle_enemy_turns ai perform pre w) = None \<longrightarrow>
        (e \<in> set (snd (fst (handle_enemy_turns ai perform order w))) \<longleftrightarrow>
         ai e (fst (fst (handle_enemy_turns ai perform pre w))))"
  proof (intro allI impI)
    fix pre e post
    assume o: "order = pre @ e # post"
      and n: "snd (handle_enemy_turns ai perform pre w) = None"
    have "distinct (pre @ e # post)" using d o by simp
    from enemy_turns_turn_of [OF this, of ai perform w] n
    show "e \<in> set (snd (fst (handle_enemy_turns ai perform order w))) \<longleftrightarrow>
         ai e (fst (fst (handle_enemy_turns ai perform pre w)))"
      unfolding handle_enemy_turns_def o by simp
  qed
  have c5: "(\<forall>a b v. ai a (fst (perform b v)) = ai a v) \<longrightarrow>
        snd (handle_enemy_turns ai perform order w) = None \<longrightarrow>
        snd (fst (handle_enemy_turns ai perform order w)) = filter (\<lambda>e. ai e w) order"
    unfolding handle_enemy_turns_def by (intro impI) (rule enemy_turns_stable_ai)
  have c6: "\<forall>e rest v. ai e v \<longrightarrow>
        snd (perform e v) = None \<or> snd (perform e v) = Some Impossible \<longrightarrow>
        handle_enemy_turns ai perform (e # rest) v =
          (case handle_enemy_turns ai perform rest (fst (perform e v)) of
             ((v', invoked), raised) \<Rightarrow> ((v', e # invoked), raised))"
    unfolding handle_enemy_turns_def by (intro allI impI) (rule enemy_turns_acting)
  have c7: "\<forall>e rest v x. ai e v \<longrightarrow> snd (perform e v) = Some x \<longrightarrow> x \<noteq> Impossible \<longrightarrow>
        handle_enemy_turns ai perform (e # rest) v = ((fst (perform e v), [e]), Some x)"
    unfolding handle_enemy_turns_def by (intro allI impI) (rule enemy_turns_failing)
  have c8: "\<forall>e. order = [e] \<longrightarrow> ai e w \<longrightarrow> snd (perform e w) = Some Impossible \<longrightarrow>
        handle_enemy_turns ai perform order w = ((fst (perform e w), [e]), None)"
  proof (intro allI impI)
    fix e
    assume "order = [e]" "ai e w" "snd (perform e w) = Some Impossible"
    then show "handle_enemy_turns ai perform order w = ((fst (perform e w), [e]), None)"
      unfolding handle_enemy_turns_def by (cases "perform e w") simp
  qed
  show ?thesis using c1 c2 c3 c4 c5 c6 c7 c8 by (intro conjI)
qed

theorem handle_enemy_turns_of_three_monsters:
  "[1, 2, 3] \<in> iteration_orders [0, 1, 2, 3 :: nat] 0
   \<and> handle_enemy_turns (\<lambda>e (v :: nat). e \<noteq> 3)
        (\<lambda>e v. if e = 1 then (v, Some Impossible) else (v + 10, None)) [1 :: nat, 2, 3] 5 =
       ((15, [1, 2]), None)
   \<and> [1 :: nat, 2] = filter (\<lambda>e. e \<noteq> 3) [1, 2, 3]
   \<and> handle_enemy_turns (\<lambda>e (v :: nat). e \<noteq> 3)
        (\<lambda>e v. if e = 1 then (v, Some Impossible) else (v + 10, None)) [1 :: nat] 5 =
       ((5, [1]), None)
   \<and> handle_enemy_turns (\<lambda>e (v :: nat). e \<noteq> 3)
        (\<lambda>e v. if e = 1 then (v + 1, Some ValueError) else (v + 10, None)) [1 :: nat, 2, 3] 5 =
       ((6, [1]), Some ValueError)"
proof -
  let ?ai = "\<lambda>(e :: nat) (v :: nat). e \<noteq> 3"
  let ?perform = "\<lambda>(e :: nat) (v :: nat). if e = 1 then (v, Some Impossible) else (v + 10, None)"
  have o: "[1, 2, 3] \<in> iteration_orders [0, 1, 2, 3 :: nat] 0"
    by (auto simp add: iteration_orders_def)
  have run: "handle_enemy_turns ?ai ?perform [1, 2, 3] 5 = ((15, [1, 2]), None)"
    by (simp add: handle_enemy_turns_def)
  have stable: "\<forall>a b v. ?ai a (fst (?perform b v)) = ?ai a v" by simp
  have completes: "snd (handle_enemy_turns ?ai ?perform [1, 2, 3] 5) = None" using run by simp
  have "(\<forall>a b v. ?ai a (fst (?perform b v)) = ?ai a v) \<longrightarrow>
        snd (handle_enemy_turns ?ai ?perform [1, 2, 3] 5) = None \<longrightarrow>
        snd (fst (handle_enemy_turns ?ai ?perform [1, 2, 3] 5)) = filter (\<lambda>e. ?ai e 5) [1, 2, 3]"
    using handle_enemy_turns_acts_once_and_absorbs_Impossible [OF o, of ?ai ?perform 5]
    by blast
  from mp [OF mp [OF this stable] completes]
  have "snd (fst (handle_enemy_turns ?ai ?perform [1, 2, 3] 5)) = filter (\<lambda>e. ?ai e 5) [1, 2, 3]" .
  then have f: "[1 :: nat, 2] = filter (\<lambda>e. e \<noteq> 3) [1, 2, 3]" using run by simp
  have single: "handle_enemy_turns ?ai ?perform [1 :: nat] 5 = ((5, [1]), None)"
    by (simp add: handle_enemy_turns_def)
  have failing: "handle_enemy_turns ?ai
        (\<lambda>e v. if e = 1 then (v + 1, Some ValueError) else (v + 10, None)) [1 :: nat, 2, 3] 5 =
       ((6, [1]), Some ValueError)"
    by (simp add: handle_enemy_turns_def)
  show ?thesis using o run f single failing by (intro conjI)
qed

end
